theory Spec2Isabelle
  imports Complex_Main "HOL-Library.Multiset"
begin

section \<open>Numeric model\<close>

text \<open>
  The program computes with Go's \<^verbatim>\<open>float64\<close> and \<^verbatim>\<open>int\<close>. The embedding is in exact
  arithmetic: a finite \<^verbatim>\<open>float64\<close> is a \<^typ>\<open>real\<close>, an \<^verbatim>\<open>int\<close> is an
  \<^typ>\<open>int\<close>. A counter or an index bounded by the length of an array cannot leave the
  64-bit range and is left unbounded; a sum of input values can, and is wrapped around
  where the code adds it up (the running count of \<^verbatim>\<open>standardizeCellMeans\<close>).
  What exact arithmetic cannot express is kept visible: a value of type \<open>float\<close> is
  \<open>Some x\<close> for the finite number \<open>x\<close> and \<open>None\<close> for a result that is not a
  finite number (NaN or an infinity), which is what Go yields for the square root of a
  negative number and for a division by zero. Rounding is not modelled.
\<close>

type_synonym float = "real option"

definition fadd :: "float \<Rightarrow> float \<Rightarrow> float" where
  "fadd a b = (case a of None \<Rightarrow> None | Some x \<Rightarrow> (case b of None \<Rightarrow> None | Some y \<Rightarrow> Some (x + y)))"

definition fsub :: "float \<Rightarrow> float \<Rightarrow> float" where
  "fsub a b = (case a of None \<Rightarrow> None | Some x \<Rightarrow> (case b of None \<Rightarrow> None | Some y \<Rightarrow> Some (x - y)))"

definition fmul :: "float \<Rightarrow> float \<Rightarrow> float" where
  "fmul a b = (case a of None \<Rightarrow> None | Some x \<Rightarrow> (case b of None \<Rightarrow> None | Some y \<Rightarrow> Some (x * y)))"

definition fdiv :: "float \<Rightarrow> float \<Rightarrow> float" where
  "fdiv a b = (case a of None \<Rightarrow> None | Some x \<Rightarrow>
     (case b of None \<Rightarrow> None | Some y \<Rightarrow> if y = 0 then None else Some (x / y)))"

definition fsqrt :: "float \<Rightarrow> float" where
  "fsqrt a = (case a of None \<Rightarrow> None | Some x \<Rightarrow> if x < 0 then None else Some (sqrt x))"

definition fval :: "float \<Rightarrow> real" where
  "fval a = (case a of None \<Rightarrow> 0 | Some x \<Rightarrow> x)"

text \<open>The run-time panics of Go that the modelled functions can raise.\<close>

datatype error =
  IndexOutOfRange
  | SliceBoundsOutOfRange
  | IntegerDivideByZero
  | MakeLenOutOfRange
  | LengthMismatch

section \<open>Constants of the program\<close>

definition minCount :: int where "minCount = 100"
definition nrow :: int where "nrow = 100"
definition ncol :: int where "ncol = 100"

section \<open>heatMap\<close>

text \<open>
  The state of the accumulation loop of \<^verbatim>\<open>heatMap\<close>: the two diagnostic counters and
  the two arrays of \<open>nrow * ncol\<close> cells.
\<close>

record heat_state =
  missed :: int
  hit :: int
  num :: "real list"
  denom :: "int list"

definition heat_init :: heat_state where
  "heat_init = \<lparr>missed = 0, hit = 0,
     num = replicate (nat (nrow * ncol)) 0, denom = replicate (nat (nrow * ncol)) 0\<rparr>"

text \<open>
  One iteration of \<^verbatim>\<open>for i, _ := range x0\<close>. The condition is evaluated left to right
  with short-circuit \<^verbatim>\<open>&&\<close>, so \<^verbatim>\<open>col[i]\<close> is read only when \<^verbatim>\<open>row[i] >= 0\<close>
  and \<^verbatim>\<open>y[i]\<close> only for an in-bounds observation; a read past the end of an array
  panics.
\<close>

definition heatStep :: "int list \<Rightarrow> int list \<Rightarrow> real list \<Rightarrow> heat_state \<Rightarrow> nat \<Rightarrow> error + heat_state" where
  "heatStep row col y s i =
     (if length row \<le> i then Inl IndexOutOfRange
      else if row ! i \<ge> 0 then
        (if length col \<le> i then Inl IndexOutOfRange
         else if col ! i \<ge> 0 \<and> row ! i < nrow \<and> col ! i < ncol then
           (let q = nat (ncol * row ! i + col ! i) in
            if length y \<le> i then Inl IndexOutOfRange
            else Inr (s\<lparr>denom := (denom s)[q := denom s ! q + 1],
                         num := (if y ! i = 1 then (num s)[q := num s ! q + 1] else num s),
                         hit := hit s + 1\<rparr>))
         else Inr (s\<lparr>missed := missed s + 1\<rparr>))
      else Inr (s\<lparr>missed := missed s + 1\<rparr>))"

fun heatLoop :: "int list \<Rightarrow> int list \<Rightarrow> real list \<Rightarrow> nat list \<Rightarrow> heat_state \<Rightarrow> error + heat_state" where
  "heatLoop row col y [] s = Inr s"
| "heatLoop row col y (i # is) s =
     (case heatStep row col y s i of Inl e \<Rightarrow> Inl e | Inr s' \<Rightarrow> heatLoop row col y is s')"

text \<open>
  The second loop: the rate of a cell, with the exponent \<open>0.1\<close> and the sentinel \<open>-1\<close>.
  \<^verbatim>\<open>math.Pow(0, 0.1)\<close> is \<open>0\<close>, as \<open>0 powr a\<close> is.
\<close>

definition heatRate :: "real \<Rightarrow> int \<Rightarrow> real" where
  "heatRate n d = (if d > minCount then (n / real_of_int d) powr (1 / 10) else - 1)"

text \<open>
  What \<^verbatim>\<open>heatMap\<close> gives back: the two returned arrays, and the two counters it
  prints (\<^verbatim>\<open>Missed %d\<close>, \<^verbatim>\<open>Hit %d\<close>).
\<close>

record heat_result =
  rat :: "real list"
  denom_out :: "int list"
  printed_missed :: int
  printed_hit :: int

definition heatMap :: "int list \<Rightarrow> int list \<Rightarrow> real list \<Rightarrow> real list \<Rightarrow> real list \<Rightarrow> error + heat_result" where
  "heatMap row col y x0 x1 =
     (case heatLoop row col y [0..<length x0] heat_init of
        Inl e \<Rightarrow> Inl e
      | Inr s \<Rightarrow> Inr \<lparr>rat = map (\<lambda>i. heatRate (num s ! i) (denom s ! i)) [0..<length (num s)],
                      denom_out = denom s,
                      printed_missed = missed s, printed_hit = hit s\<rparr>)"

text \<open>An observation is in bounds when its cell lies inside the grid.\<close>

definition inBounds :: "int list \<Rightarrow> int list \<Rightarrow> nat \<Rightarrow> bool" where
  "inBounds row col i = (row ! i \<ge> 0 \<and> col ! i \<ge> 0 \<and> row ! i < nrow \<and> col ! i < ncol)"

text \<open>The invariant of the accumulation loop: no cell has more events than observations.\<close>

definition num_le_denom :: "heat_state \<Rightarrow> bool" where
  "num_le_denom s = (\<forall>q < length (num s). 0 \<le> num s ! q \<and> num s ! q \<le> real_of_int (denom s ! q))"

section \<open>getBrakeProb\<close>

text \<open>
  Modelled from the spec: \<^verbatim>\<open>floats.Argsort\<close> of the gonum library, which is not part of
  the repository. It sorts its first argument in place into increasing order and writes
  into the second, for each position of the sorted array, the position the value came
  from; the spec asks for a stable sort. The result is the pair of the sorted array and
  the permutation. The scores are finite numbers (a NaN has no place in the order).
\<close>

definition Argsort :: "real list \<Rightarrow> real list \<times> nat list" where
  "Argsort dst =
     (let ps = sort_key fst (zip dst [0..<length dst]) in (map fst ps, map snd ps))"

text \<open>
  The loop \<^verbatim>\<open>for _, i := range ii { b = append(b, br[i]) }\<close>; a position past the end
  of \<^verbatim>\<open>br\<close> panics.
\<close>

fun reorder :: "real list \<Rightarrow> nat list \<Rightarrow> error + real list" where
  "reorder br [] = Inr []"
| "reorder br (i # is) =
     (if i < length br
      then (case reorder br is of Inl e \<Rightarrow> Inl e | Inr b \<Rightarrow> Inr (br ! i # b))
      else Inl IndexOutOfRange)"

text \<open>The inner loop \<^verbatim>\<open>for j := i - w; j < i+w; j++ { z[j]++ }\<close>, over its indices.\<close>

fun bumpRange :: "real list \<Rightarrow> nat list \<Rightarrow> error + real list" where
  "bumpRange z [] = Inr z"
| "bumpRange z (j # js) =
     (if j < length z then bumpRange (z[j := z ! j + 1]) js else Inl IndexOutOfRange)"

text \<open>The outer loop \<^verbatim>\<open>for i := w; i < len(b)-w; i++\<close>, over its indices.\<close>

fun accumulate :: "real list \<Rightarrow> nat \<Rightarrow> real list \<Rightarrow> nat list \<Rightarrow> error + real list" where
  "accumulate b w z [] = Inr z"
| "accumulate b w z (i # is) =
     (if length b \<le> i then Inl IndexOutOfRange
      else if b ! i = 1
      then (case bumpRange z [i - w..<i + w] of
              Inl e \<Rightarrow> Inl e
            | Inr z' \<Rightarrow> accumulate b w z' is)
      else accumulate b w z is)"

text \<open>
  The result of \<^verbatim>\<open>getBrakeProb\<close>: the two returned slices, and the contents of the
  caller's two arrays when the function returns (\<^verbatim>\<open>Argsort\<close> works in place, and the
  returned score slice is a window of the caller's array).
\<close>

record brake_result =
  sc_out :: "real list"
  z_out :: "float list"
  sc_mem :: "real list"
  br_mem :: "real list"

text \<open>
  With a negative \<open>w\<close> the first iteration of the outer loop reads \<^verbatim>\<open>b[w]\<close> and panics.
  The slice expression \<^verbatim>\<open>sc[w : len(sc)-w]\<close> panics when its lower bound exceeds its
  upper bound.
\<close>

definition getBrakeProb :: "real list \<Rightarrow> real list \<Rightarrow> int \<Rightarrow> error + brake_result" where
  "getBrakeProb sc br w =
     (case Argsort sc of (sc', ii) \<Rightarrow>
      (case reorder br ii of
         Inl e \<Rightarrow> Inl e
       | Inr b \<Rightarrow>
          if w < 0 then Inl IndexOutOfRange
          else
            (case accumulate b (nat w) (replicate (length sc) 0) [nat w..<length b - nat w] of
               Inl e \<Rightarrow> Inl e
             | Inr z \<Rightarrow>
                (let zn = map (\<lambda>x. fdiv (Some x) (Some (real_of_int (2 * w)))) z in
                 if int (length sc) - w < w then Inl SliceBoundsOutOfRange
                 else Inr \<lparr>sc_out = drop (nat w) (take (length sc' - nat w) sc'),
                           z_out = drop (nat w) (take (length zn - nat w) zn),
                           sc_mem = sc', br_mem = br\<rparr>))))"

section \<open>cormat and standardize\<close>

text \<open>A loop whose body can panic: the first panic ends it.\<close>

fun mapE :: "('a \<Rightarrow> error + 'b) \<Rightarrow> 'a list \<Rightarrow> error + 'b list" where
  "mapE f [] = Inr []"
| "mapE f (x # xs) =
     (case f x of
        Inl e \<Rightarrow> Inl e
      | Inr y \<Rightarrow> (case mapE f xs of Inl e \<Rightarrow> Inl e | Inr ys \<Rightarrow> Inr (y # ys)))"

text \<open>
  \<^verbatim>\<open>cormat\<close>. \<^verbatim>\<open>make([]float64, p)\<close> panics for a negative \<open>p\<close>; the first loop reads
  \<^verbatim>\<open>x[i*p+i]\<close> for \<open>i < p\<close>; the second computes \<^verbatim>\<open>i / p\<close> (a panic when \<open>p = 0\<close>) and
  reads \<^verbatim>\<open>s[i / p]\<close> and \<^verbatim>\<open>s[i % p]\<close> for every position \<open>i\<close> of \<open>x\<close>. The entries of
  \<open>x\<close> are finite numbers.
\<close>

definition cormat :: "real list \<Rightarrow> int \<Rightarrow> error + float list" where
  "cormat x p =
     (if p < 0 then Inl MakeLenOutOfRange
      else
        (case mapE (\<lambda>i. if i * nat p + i < length x
                         then Inr (fsqrt (Some (x ! (i * nat p + i))))
                         else Inl IndexOutOfRange) [0..<nat p] of
           Inl e \<Rightarrow> Inl e
         | Inr s \<Rightarrow>
             mapE (\<lambda>i. if p = 0 then Inl IntegerDivideByZero
                        else if i div nat p < length s
                        then Inr (fdiv (Some (x ! i)) (fmul (s ! (i div nat p)) (s ! (i mod nat p))))
                        else Inl IndexOutOfRange) [0..<length x]))"

text \<open>
  Modelled from the spec: \<^verbatim>\<open>floats.Scale(c, dst)\<close> of the gonum library, which is not part
  of the repository: it multiplies every element of \<open>dst\<close> by \<open>c\<close>, in place.
\<close>

definition Scale :: "float \<Rightarrow> float list \<Rightarrow> float list" where
  "Scale c dst = map (\<lambda>d. fmul d c) dst"

text \<open>
  The index pairs of the nested loops of \<^verbatim>\<open>standardize\<close>, in the order they are
  visited: \<open>i\<close> from \<open>0\<close> to \<open>p - 1\<close>, and for each \<open>i\<close>, \<open>j\<close> from \<open>0\<close> to \<open>i\<close>.
\<close>

definition lowerPairs :: "nat \<Rightarrow> (nat \<times> nat) list" where
  "lowerPairs p = concat (map (\<lambda>i. map (\<lambda>j. (i, j)) [0..<Suc i]) [0..<p])"

text \<open>The body of the loops: a term off the diagonal is added twice.\<close>

fun quadAcc :: "real list \<Rightarrow> real list \<Rightarrow> real \<Rightarrow> (nat \<times> nat) list \<Rightarrow> error + real" where
  "quadAcc vec mat v [] = Inr v"
| "quadAcc vec mat v ((i, j) # ps) =
     (if i * length vec + j < length mat
      then (let u = vec ! i * vec ! j * mat ! (i * length vec + j)
            in quadAcc vec mat (if j \<noteq> i then v + 2 * u else v + u) ps)
      else Inl IndexOutOfRange)"

text \<open>
  \<^verbatim>\<open>standardize\<close> scales \<open>vec\<close> in place; the result is the new contents of \<open>vec\<close>.
  The entries of \<open>vec\<close> and \<open>mat\<close> are finite numbers.
\<close>

definition standardize :: "real list \<Rightarrow> real list \<Rightarrow> error + float list" where
  "standardize vec mat =
     (case quadAcc vec mat 0 (lowerPairs (length vec)) of
        Inl e \<Rightarrow> Inl e
      | Inr v \<Rightarrow> Inr (Scale (fdiv (Some 1) (fsqrt (Some v))) (map Some vec)))"

text \<open>
  The quadratic form of the spec, \<open>\<Sum>\<^sub>i \<Sum>\<^sub>j u\<^sub>i u\<^sub>j m\<^sub>i\<^sub>j\<close> for a matrix flattened row by row,
  and the matrices the spec calls covariance matrices: symmetric, and positive
  semi-definite.
\<close>

definition quadForm :: "real list \<Rightarrow> real list \<Rightarrow> real" where
  "quadForm u m = (\<Sum>i<length u. \<Sum>j<length u. u ! i * u ! j * m ! (i * length u + j))"

definition symmetric :: "real list \<Rightarrow> nat \<Rightarrow> bool" where
  "symmetric m P = (\<forall>i<P. \<forall>j<P. m ! (i * P + j) = m ! (j * P + i))"

definition psd :: "real list \<Rightarrow> nat \<Rightarrow> bool" where
  "psd m P = (symmetric m P \<and> (\<forall>u. length u = P \<longrightarrow> 0 \<le> quadForm u m))"

text \<open>
  The sum the loops of \<^verbatim>\<open>standardize\<close> accumulate: the entries below the diagonal
  twice, the diagonal once, the entries above the diagonal never.
\<close>

definition triForm :: "real list \<Rightarrow> real list \<Rightarrow> real" where
  "triForm u m = (\<Sum>i<length u. (\<Sum>j<i. 2 * (u ! i * u ! j * m ! (i * length u + j)))
                                  + u ! i * u ! i * m ! (i * length u + i))"


section \<open>standardizeCellMeans\<close>

text \<open>
  Modelled from the spec: \<^verbatim>\<open>floats.AddScaled(dst, alpha, s)\<close> and \<^verbatim>\<open>floats.Sub(dst, s)\<close>
  of the gonum library, which is not part of the repository. The first adds \<open>alpha * s[i]\<close>
  to every \<open>dst[i]\<close>, the second subtracts \<open>s[i]\<close> from every \<open>dst[i]\<close>, both in place, and
  both panic when the two lengths differ.
\<close>

definition AddScaled :: "float list \<Rightarrow> float \<Rightarrow> float list \<Rightarrow> error + float list" where
  "AddScaled dst alpha s =
     (if length dst \<noteq> length s then Inl LengthMismatch
      else Inr (map2 (\<lambda>d x. fadd d (fmul alpha x)) dst s))"

definition Sub :: "float list \<Rightarrow> float list \<Rightarrow> error + float list" where
  "Sub dst s =
     (if length dst \<noteq> length s then Inl LengthMismatch else Inr (map2 fsub dst s))"

text \<open>
  The running count \<open>w\<close> of both passes is a Go \<^verbatim>\<open>int\<close>, which has 64 bits here:
  \<^verbatim>\<open>w += cmc[i]\<close> wraps around when the sum leaves the range from \<open>-2\<^sup>6\<^sup>3\<close> to \<open>2\<^sup>6\<^sup>3 - 1\<close>.
\<close>

definition wrap64 :: "int \<Rightarrow> int" where
  "wrap64 x = (x + 2 ^ 63) mod 2 ^ 64 - 2 ^ 63"

text \<open>
  The first loop of \<^verbatim>\<open>standardizeCellMeans\<close>, over the cells in order: the running sum
  \<open>v\<close> and the running count \<open>w\<close>. \<^verbatim>\<open>cmc[i]\<close> is read for every cell, so a \<open>cmc\<close> shorter
  than \<open>cmn\<close> panics. The rows of \<open>cmn\<close> are separate arrays.
\<close>

fun centerSum :: "float list \<Rightarrow> int \<Rightarrow> float list list \<Rightarrow> int list \<Rightarrow> error + float list \<times> int" where
  "centerSum v w [] cmc = Inr (v, w)"
| "centerSum v w (u # us) [] = Inl IndexOutOfRange"
| "centerSum v w (u # us) (c # cs) =
     (if c > 0
      then (case AddScaled v (Some (real_of_int c)) u of
              Inl e \<Rightarrow> Inl e
            | Inr v' \<Rightarrow> centerSum v' (wrap64 (w + c)) us cs)
      else centerSum v w us cs)"

text \<open>
  The count-weighted mean of the populated cells, as the code computes it: \<open>v\<close> starts as
  \<open>K\<close> zeros, \<open>K\<close> being the length of \<^verbatim>\<open>cmn[0]\<close>, and is scaled by \<open>1 / w\<close> after the loop.
\<close>

definition centerMean :: "nat \<Rightarrow> float list list \<Rightarrow> int list \<Rightarrow> error + float list" where
  "centerMean K cmn cmc =
     (case centerSum (replicate K (Some 0)) 0 cmn cmc of
        Inl e \<Rightarrow> Inl e
      | Inr (v, w) \<Rightarrow> Inr (Scale (fdiv (Some 1) (Some (real_of_int w))) v))"

text \<open>
  The centering step: the mean is subtracted in the loop
  \<^verbatim>\<open>for _, u := range cmn { floats.Sub(u, v) }\<close>, which has no test of \<^verbatim>\<open>cmc\<close>.
\<close>

definition center :: "nat \<Rightarrow> float list list \<Rightarrow> int list \<Rightarrow> error + float list list" where
  "center K cmn cmc =
     (case centerMean K cmn cmc of
        Inl e \<Rightarrow> Inl e
      | Inr v \<Rightarrow> mapE (\<lambda>u. Sub u v) cmn)"

text \<open>
  The inner loop \<^verbatim>\<open>for j, _ := range u { v[j] += float64(cmc[i]) * u[j] * u[j] }\<close>; a row
  longer than \<open>v\<close> panics.
\<close>

definition accSq :: "float list \<Rightarrow> int \<Rightarrow> float list \<Rightarrow> error + float list" where
  "accSq v c u =
     (if length v < length u then Inl IndexOutOfRange
      else Inr (map2 (\<lambda>x y. fadd x (fmul (fmul (Some (real_of_int c)) y) y)) v u
                @ drop (length u) v))"

fun scaleSum :: "float list \<Rightarrow> int \<Rightarrow> float list list \<Rightarrow> int list \<Rightarrow> error + float list \<times> int" where
  "scaleSum v w [] cmc = Inr (v, w)"
| "scaleSum v w (u # us) [] = Inl IndexOutOfRange"
| "scaleSum v w (u # us) (c # cs) =
     (if c > 0
      then (case accSq v c u of
              Inl e \<Rightarrow> Inl e
            | Inr v' \<Rightarrow> scaleSum v' (wrap64 (w + c)) us cs)
      else scaleSum v w us cs)"

text \<open>The last loop, \<^verbatim>\<open>cmn[i][j] = x / v[j]\<close>, for one row.\<close>

definition divRow :: "float list \<Rightarrow> float list \<Rightarrow> error + float list" where
  "divRow sd u =
     (if length sd < length u then Inl IndexOutOfRange else Inr (map2 fdiv u sd))"

text \<open>The scaling step: \<open>v\<close> is set to zero again and keeps its length \<open>K\<close>.\<close>

definition scale :: "nat \<Rightarrow> float list list \<Rightarrow> int list \<Rightarrow> error + float list list" where
  "scale K cmn cmc =
     (case scaleSum (replicate K (Some 0)) 0 cmn cmc of
        Inl e \<Rightarrow> Inl e
      | Inr (v, w) \<Rightarrow>
          mapE (divRow (map fsqrt (Scale (fdiv (Some 1) (Some (real_of_int w))) v))) cmn)"

text \<open>
  \<^verbatim>\<open>standardizeCellMeans\<close> works in place; the result is the new contents of \<open>cmn\<close>.
  \<^verbatim>\<open>cmn[0]\<close> panics for an empty \<open>cmn\<close>.
\<close>

definition standardizeCellMeans :: "float list list \<Rightarrow> int list \<Rightarrow> error + float list list" where
  "standardizeCellMeans cmn cmc =
     (case cmn of
        [] \<Rightarrow> Inl IndexOutOfRange
      | u0 # _ \<Rightarrow>
          (case center (length u0) cmn cmc of
             Inl e \<Rightarrow> Inl e
           | Inr cmn1 \<Rightarrow> scale (length u0) cmn1 cmc))"

text \<open>
  The count-weighted sums of the spec, over the populated cells (\<open>cmc[q] > 0\<close>): the sum
  of \<open>cmc[q] * f(cmn[q])\<close>, the total count (as a number, and as the integer \<open>ctotal\<close>
  that the code adds up in \<open>w\<close>, before any wrap-around), and the weighted mean and
  variance of dimension \<open>k\<close>. A cell is finite when none of its entries is NaN or
  infinite.
\<close>

definition wsum :: "(float list \<Rightarrow> real) \<Rightarrow> float list list \<Rightarrow> int list \<Rightarrow> real" where
  "wsum f cmn cmc = (\<Sum>(u, c)\<leftarrow>zip cmn cmc. if c > 0 then real_of_int c * f u else 0)"

definition ctotal :: "float list list \<Rightarrow> int list \<Rightarrow> int" where
  "ctotal cmn cmc = (\<Sum>(u, c)\<leftarrow>zip cmn cmc. if c > 0 then c else 0)"

definition wtotal :: "float list list \<Rightarrow> int list \<Rightarrow> real" where
  "wtotal cmn cmc = wsum (\<lambda>u. 1) cmn cmc"

definition wmean :: "float list list \<Rightarrow> int list \<Rightarrow> nat \<Rightarrow> real" where
  "wmean cmn cmc k = wsum (\<lambda>u. fval (u ! k)) cmn cmc / wtotal cmn cmc"

definition wvar :: "float list list \<Rightarrow> int list \<Rightarrow> nat \<Rightarrow> real" where
  "wvar cmn cmc k = wsum (\<lambda>u. (fval (u ! k))\<^sup>2) cmn cmc / wtotal cmn cmc"

definition populated_finite :: "float list list \<Rightarrow> int list \<Rightarrow> bool" where
  "populated_finite cmn cmc = (\<forall>(u, c) \<in> set (zip cmn cmc). c > 0 \<longrightarrow> (\<forall>x \<in> set u. x \<noteq> None))"

section \<open>Properties of heatMap\<close>


lemma cell_index_bound:
  assumes "0 \<le> r" "r < nrow" "0 \<le> c" "c < ncol"
  shows "nat (ncol * r + c) < nat (nrow * ncol)"
proof -
  have "ncol * r + c < ncol * r + ncol" using assms by simp
  also have "\<dots> = ncol * (r + 1)" by (simp add: algebra_simps)
  also have "\<dots> \<le> ncol * nrow" using assms by (intro mult_left_mono) (auto simp: ncol_def)
  finally have "ncol * r + c < nrow * ncol" by (simp add: mult.commute)
  moreover have "0 \<le> ncol * r + c" using assms by (simp add: ncol_def)
  ultimately show ?thesis by simp
qed

lemma sum_list_bump:
  fixes xs :: "'a::ab_group_add list"
  shows "k < length xs \<Longrightarrow> sum_list (xs[k := xs ! k + d]) = sum_list xs + d"
proof (induction xs arbitrary: k)
  case Nil
  then show ?case by simp
next
  case (Cons x xs)
  then show ?case by (cases k) (simp_all add: algebra_simps)
qed

lemma heatStep_inv:
  assumes "heatStep row col y s i = Inr s'"
    and "length (denom s) = nat (nrow * ncol)" and "length (num s) = nat (nrow * ncol)"
  shows "length (denom s') = nat (nrow * ncol) \<and> length (num s') = nat (nrow * ncol)
    \<and> hit s' = hit s + (if inBounds row col i then 1 else 0)
    \<and> missed s' = missed s + (if inBounds row col i then 0 else 1)
    \<and> sum_list (denom s') = sum_list (denom s) + (if inBounds row col i then 1 else 0)
    \<and> sum_list (num s') = sum_list (num s) + (if inBounds row col i \<and> y ! i = 1 then 1 else 0)"
proof (cases "inBounds row col i")
  case True
  define q where "q = nat (ncol * row ! i + col ! i)"
  from True have q: "q < nat (nrow * ncol)"
    unfolding inBounds_def q_def by (intro cell_index_bound) auto
  from True assms(1) have s': "s' = s\<lparr>denom := (denom s)[q := denom s ! q + 1],
                         num := (if y ! i = 1 then (num s)[q := num s ! q + 1] else num s),
                         hit := hit s + 1\<rparr>"
    by (auto simp: heatStep_def inBounds_def Let_def q_def split: if_splits)
  have "sum_list ((denom s)[q := denom s ! q + 1]) = sum_list (denom s) + 1"
  proof -
    from q assms(2) have "q < length (denom s)" by linarith
    then show ?thesis by (rule sum_list_bump)
  qed
  moreover have "sum_list ((num s)[q := num s ! q + 1]) = sum_list (num s) + 1"
  proof -
    from q assms(3) have "q < length (num s)" by linarith
    then show ?thesis by (rule sum_list_bump)
  qed
  ultimately show ?thesis using True assms(2,3) by (simp add: s')
next
  case False
  with assms(1) have "s' = s\<lparr>missed := missed s + 1\<rparr>"
    by (auto simp: heatStep_def inBounds_def Let_def split: if_splits)
  with False assms(2,3) show ?thesis by simp
qed

lemma heatLoop_inv:
  assumes "heatLoop row col y js s = Inr s'"
    and "length (denom s) = nat (nrow * ncol)" and "length (num s) = nat (nrow * ncol)"
  shows "length (denom s') = nat (nrow * ncol) \<and> length (num s') = nat (nrow * ncol)
    \<and> hit s' = hit s + int (length (filter (inBounds row col) js))
    \<and> missed s' = missed s + int (length (filter (\<lambda>i. \<not> inBounds row col i) js))
    \<and> sum_list (denom s') = sum_list (denom s) + int (length (filter (inBounds row col) js))
    \<and> sum_list (num s') = sum_list (num s) + real (length (filter (\<lambda>i. inBounds row col i \<and> y ! i = 1) js))"
  using assms
proof (induction js arbitrary: s)
  case Nil
  then show ?case by simp
next
  case (Cons i js)
  from Cons.prems(1) obtain s1 where s1: "heatStep row col y s i = Inr s1"
    and rest: "heatLoop row col y js s1 = Inr s'"
    by (auto split: sum.splits)
  note st = heatStep_inv[OF s1 Cons.prems(2,3)]
  from st have l: "length (denom s1) = nat (nrow * ncol)" "length (num s1) = nat (nrow * ncol)" by auto
  note ih = Cons.IH[OF rest l]
  show ?case using st ih by auto
qed


lemma heatLoop_lengths:
  assumes "heatLoop row col y [0..<n] heat_init = Inr s"
  shows "length (denom s) = nat (nrow * ncol)" "length (num s) = nat (nrow * ncol)"
  using heatLoop_inv[OF assms] by (simp_all add: heat_init_def)

lemma heatLoop_total:
  assumes "\<forall>i\<in>set js. i < length row \<and> i < length col \<and> i < length y"
  shows "\<exists>s'. heatLoop row col y js s = Inr s'"
  using assms
proof (induction js arbitrary: s)
  case Nil
  then show ?case by simp
next
  case (Cons i js)
  then have "\<exists>s1. heatStep row col y s i = Inr s1"
    by (simp add: heatStep_def Let_def)
  then obtain s1 where "heatStep row col y s i = Inr s1" ..
  with Cons show ?case by simp
qed

lemma heatMap_Inr:
  assumes "heatMap row col y x0 x1 = Inr r"
  obtains s where "heatLoop row col y [0..<length x0] heat_init = Inr s"
    and "r = \<lparr>rat = map (\<lambda>i. heatRate (num s ! i) (denom s ! i)) [0..<length (num s)],
               denom_out = denom s, printed_missed = missed s, printed_hit = hit s\<rparr>"
  using assms by (auto simp: heatMap_def split: sum.splits)

text \<open>
  Claim C5. Whenever \<^verbatim>\<open>heatMap\<close> returns, each cell \<open>q\<close> of the grid whose count
  \<open>denom[q]\<close> is strictly greater than \<open>minCount\<close> has the rate
  \<open>(num[q] / denom[q]) ^ 0.1\<close>, and every other cell has the sentinel \<open>-1\<close>; a cell whose
  count is exactly \<open>minCount\<close> has the sentinel, the comparison being strict.
\<close>

theorem heatMap_rate:
  assumes "heatMap row col y x0 x1 = Inr r" and "q < nat (nrow * ncol)"
  shows "\<exists>s. heatLoop row col y [0..<length x0] heat_init = Inr s
    \<and> length (rat r) = nat (nrow * ncol)
    \<and> rat r ! q = (if denom s ! q > minCount
                    then (num s ! q / real_of_int (denom s ! q)) powr (1 / 10) else - 1)
    \<and> (denom s ! q = minCount \<longrightarrow> rat r ! q = - 1)"
proof -
  from assms(1) obtain s where s: "heatLoop row col y [0..<length x0] heat_init = Inr s"
    and r: "r = \<lparr>rat = map (\<lambda>i. heatRate (num s ! i) (denom s ! i)) [0..<length (num s)],
               denom_out = denom s, printed_missed = missed s, printed_hit = hit s\<rparr>"
    by (rule heatMap_Inr)
  have len: "length (num s) = nat (nrow * ncol)" by (rule heatLoop_lengths[OF s])
  with assms(2) have "q < length (num s)" by linarith
  then have "rat r ! q = heatRate (num s ! q) (denom s ! q)" by (simp add: r)
  moreover have "length (rat r) = nat (nrow * ncol)" using len by (simp add: r)
  ultimately show ?thesis using s by (auto simp: heatRate_def)
qed

lemma heatLoop_one_cell:
  assumes "\<forall>i \<in> set js. i < n"
    and "length (denom s) = nat (nrow * ncol)" and "length (num s) = nat (nrow * ncol)"
  shows "heatLoop (replicate n 0) (replicate n 0) (replicate n 1) js s
    = Inr (s\<lparr>denom := (denom s)[0 := denom s ! 0 + int (length js)],
             num := (num s)[0 := num s ! 0 + real (length js)],
             hit := hit s + int (length js)\<rparr>)"
  using assms
proof (induction js arbitrary: s)
  case Nil
  then show ?case by simp
next
  case (Cons i js)
  define s1 where "s1 = s\<lparr>denom := (denom s)[0 := denom s ! 0 + 1],
      num := (num s)[0 := num s ! 0 + 1], hit := hit s + 1\<rparr>"
  from Cons.prems(1) have i: "i < n" by simp
  then have st: "heatStep (replicate n 0) (replicate n 0) (replicate n 1) s i = Inr s1"
    by (simp add: heatStep_def s1_def nrow_def ncol_def)
  have pos: "0 < nat (nrow * ncol)" by (simp add: nrow_def ncol_def)
  from Cons.prems(2,3) have l: "length (denom s1) = nat (nrow * ncol)" "length (num s1) = nat (nrow * ncol)"
    by (simp_all add: s1_def)
  from Cons.prems(1) have "\<forall>i \<in> set js. i < n" by simp
  from Cons.IH[OF this l] st pos Cons.prems(2,3) show ?case
    by (simp add: s1_def algebra_simps)
qed

lemma heatLoop_init_cell:
  "heatLoop (replicate n 0) (replicate n 0) (replicate n 1) [0..<n] heat_init
    = Inr \<lparr>missed = 0, hit = int n, num = (replicate (nat (nrow * ncol)) 0)[0 := real n],
           denom = (replicate (nat (nrow * ncol)) 0)[0 := int n]\<rparr>"
proof -
  have "\<forall>i \<in> set [0..<n]. i < n" by simp
  moreover have "length (denom heat_init) = nat (nrow * ncol)" "length (num heat_init) = nat (nrow * ncol)"
    by (simp_all add: heat_init_def)
  ultimately have "heatLoop (replicate n 0) (replicate n 0) (replicate n 1) [0..<n] heat_init
    = Inr (heat_init\<lparr>denom := (denom heat_init)[0 := denom heat_init ! 0 + int (length [0..<n])],
             num := (num heat_init)[0 := num heat_init ! 0 + real (length [0..<n])],
             hit := hit heat_init + int (length [0..<n])\<rparr>)"
    by (rule heatLoop_one_cell)
  moreover have "0 < nat (nrow * ncol)" by (simp add: nrow_def ncol_def)
  ultimately show ?thesis by (simp add: heat_init_def)
qed

text \<open>
  The theorem of C5 at one cell that receives \<open>100\<close> observations, exactly \<open>minCount\<close>, and
  at one that receives \<open>101\<close>: the first has the sentinel, the second the rate \<open>1\<close>.
\<close>

theorem heatMap_rate_witness:
  "(\<exists>r. heatMap (replicate 100 0) (replicate 100 0) (replicate 100 1) (replicate 100 0) [] = Inr r
        \<and> denom_out r ! 0 = minCount \<and> rat r ! 0 = - 1)
   \<and> (\<exists>r. heatMap (replicate 101 0) (replicate 101 0) (replicate 101 1) (replicate 101 0) [] = Inr r
        \<and> denom_out r ! 0 = minCount + 1 \<and> rat r ! 0 = 1)"
proof -
  have q: "(0::nat) < nat (nrow * ncol)" by (simp add: nrow_def ncol_def)
  have first: "\<exists>r. heatMap (replicate n 0) (replicate n 0) (replicate n 1) (replicate n 0) [] = Inr r
        \<and> denom_out r ! 0 = int n
        \<and> rat r ! 0 = (if int n > minCount then (real n / real_of_int (int n)) powr (1 / 10) else - 1)"
    for n
  proof -
    let ?s = "\<lparr>missed = 0, hit = int n, num = (replicate (nat (nrow * ncol)) 0)[0 := real n],
           denom = (replicate (nat (nrow * ncol)) 0)[0 := int n]\<rparr>"
    have l: "heatLoop (replicate n 0) (replicate n 0) (replicate n 1)
        [0..<length (replicate n (0::real))] heat_init = Inr ?s"
      using heatLoop_init_cell[of n] by simp
    then obtain r where r: "heatMap (replicate n 0) (replicate n 0) (replicate n 1) (replicate n 0) [] = Inr r"
      and d: "denom_out r = denom ?s"
      by (simp add: heatMap_def)
    from heatMap_rate[OF r q] l
    have "rat r ! 0 = (if denom ?s ! 0 > minCount
                    then (num ?s ! 0 / real_of_int (denom ?s ! 0)) powr (1 / 10) else - 1)"
      by auto
    with r d q show ?thesis by simp
  qed
  from first[of 100] first[of 101] show ?thesis by (simp add: minCount_def)
qed

lemma heatStep_num_le_denom:
  assumes "heatStep row col y s i = Inr s'"
    and "length (denom s) = length (num s)" and "num_le_denom s"
  shows "length (denom s') = length (num s') \<and> num_le_denom s'"
proof -
  consider (upd) q where "s' = s\<lparr>denom := (denom s)[q := denom s ! q + 1],
        num := (if y ! i = 1 then (num s)[q := num s ! q + 1] else num s), hit := hit s + 1\<rparr>"
    | (miss) "s' = s\<lparr>missed := missed s + 1\<rparr>"
    using assms(1) by (auto simp: heatStep_def Let_def split: if_splits)
  then show ?thesis
  proof cases
    case upd
    have "0 \<le> num s' ! k \<and> num s' ! k \<le> real_of_int (denom s' ! k)" if "k < length (num s)" for k
    proof -
      from assms(3) that have k: "0 \<le> num s ! k" "num s ! k \<le> real_of_int (denom s ! k)"
        by (auto simp: num_le_denom_def)
      from that assms(2) have kd: "k < length (denom s)" by simp
      show ?thesis using k that kd by (cases "k = q") (auto simp: upd)
    qed
    then show ?thesis using assms(2) by (auto simp: num_le_denom_def upd)
  next
    case miss
    then show ?thesis using assms(2,3) by (simp add: num_le_denom_def)
  qed
qed

lemma heatLoop_num_le_denom:
  assumes "heatLoop row col y js s = Inr s'"
    and "length (denom s) = length (num s)" and "num_le_denom s"
  shows "num_le_denom s'"
  using assms
proof (induction js arbitrary: s)
  case Nil
  then show ?case by simp
next
  case (Cons i js)
  from Cons.prems(1) obtain s1 where s1: "heatStep row col y s i = Inr s1"
    and rest: "heatLoop row col y js s1 = Inr s'"
    by (auto split: sum.splits)
  from heatStep_num_le_denom[OF s1 Cons.prems(2,3)] Cons.IH[OF rest] show ?case by blast
qed

lemma heatRate_range:
  assumes "0 \<le> n" and "n \<le> real_of_int d"
  shows "heatRate n d = - 1 \<or> (0 \<le> heatRate n d \<and> heatRate n d \<le> 1)"
proof (cases "d > minCount")
  case True
  then have d: "0 < real_of_int d" by (simp add: minCount_def)
  with assms have "0 \<le> n / real_of_int d" "n / real_of_int d \<le> 1" by simp_all
  then have "(n / real_of_int d) powr (1 / 10) \<le> 1" by (intro powr_le1) simp_all
  with True show ?thesis by (simp add: heatRate_def)
next
  case False
  then show ?thesis by (simp add: heatRate_def)
qed

text \<open>
  Claim C9. After the accumulation loop of \<^verbatim>\<open>heatMap\<close> the counts of all cells add up
  to the counter \<open>hit\<close>, \<open>hit + missed\<close> is the number \<open>N\<close> of observations, \<open>hit\<close> is
  the number of in-bounds observations, and the entries of \<open>num\<close> add up to the number of
  in-bounds observations with \<open>y[i] = 1\<close>: every in-bounds observation is counted in exactly
  one cell.
\<close>

theorem heatMap_counts:
  assumes "heatLoop row col y [0..<length x0] heat_init = Inr s"
  shows "sum_list (denom s) = hit s
    \<and> hit s + missed s = int (length x0)
    \<and> hit s = int (length (filter (inBounds row col) [0..<length x0]))
    \<and> sum_list (num s) = real (length (filter (\<lambda>i. inBounds row col i \<and> y ! i = 1) [0..<length x0]))"
proof -
  let ?js = "[0..<length x0]"
  have "length (filter (inBounds row col) ?js) + length (filter (\<lambda>i. \<not> inBounds row col i) ?js)
      = length ?js"
    by (rule sum_length_filter_compl)
  then have "int (length (filter (inBounds row col) ?js))
      + int (length (filter (\<lambda>i. \<not> inBounds row col i) ?js)) = int (length x0)"
    by (simp flip: of_nat_add)
  moreover note heatLoop_inv[OF assms]
  ultimately show ?thesis by (simp add: heat_init_def sum_list_replicate)
qed

text \<open>
  Claim C10. At the end of the accumulation loop of \<^verbatim>\<open>heatMap\<close> every cell \<open>q\<close> has
  \<open>num[q] \<le> denom[q]\<close>, and so every entry of the returned rate array is the sentinel
  \<open>-1\<close> or a value of the interval \<open>[0, 1]\<close>.
\<close>

theorem heatMap_rate_range:
  assumes "heatMap row col y x0 x1 = Inr r"
  shows "\<exists>s. heatLoop row col y [0..<length x0] heat_init = Inr s
    \<and> (\<forall>q < nat (nrow * ncol). num s ! q \<le> real_of_int (denom s ! q))
    \<and> (\<forall>x \<in> set (rat r). x = - 1 \<or> (0 \<le> x \<and> x \<le> 1))"
proof -
  from assms obtain s where s: "heatLoop row col y [0..<length x0] heat_init = Inr s"
    and r: "r = \<lparr>rat = map (\<lambda>i. heatRate (num s ! i) (denom s ! i)) [0..<length (num s)],
               denom_out = denom s, printed_missed = missed s, printed_hit = hit s\<rparr>"
    by (rule heatMap_Inr)
  have "num_le_denom heat_init" by (simp add: num_le_denom_def heat_init_def)
  moreover have "length (denom heat_init) = length (num heat_init)" by (simp add: heat_init_def)
  ultimately have inv: "num_le_denom s" using heatLoop_num_le_denom[OF s] by blast
  have len: "length (num s) = nat (nrow * ncol)" by (rule heatLoop_lengths[OF s])
  have "num s ! q \<le> real_of_int (denom s ! q)" if "q < nat (nrow * ncol)" for q
    using inv that len by (simp add: num_le_denom_def)
  moreover have "x = - 1 \<or> (0 \<le> x \<and> x \<le> 1)" if "x \<in> set (rat r)" for x
  proof -
    from that obtain i where "i < length (num s)" "x = heatRate (num s ! i) (denom s ! i)"
      by (auto simp: r)
    with inv heatRate_range show ?thesis by (simp add: num_le_denom_def)
  qed
  ultimately show ?thesis using s by blast
qed


text \<open>
  The theorem of C9 at three observations, the second of them out of bounds.
\<close>

theorem heatMap_counts_witness:
  "\<exists>s. heatLoop [0, 200, 3] [0, 0, 5] [1, 0, 0] [0..<length [0::real, 0, 0]] heat_init = Inr s
    \<and> sum_list (denom s) = hit s \<and> hit s + missed s = 3 \<and> hit s = 2 \<and> sum_list (num s) = 1"
proof -
  have "\<exists>s. heatLoop [0, 200, 3] [0, 0, 5] [1, 0, 0] [0..<length [0::real, 0, 0]] heat_init = Inr s"
    by (rule heatLoop_total) auto
  then obtain s where s: "heatLoop [0, 200, 3] [0, 0, 5] [1, 0, 0] [0..<length [0::real, 0, 0]] heat_init = Inr s" ..
  have "sum_list (denom s) = hit s \<and> hit s + missed s = 3 \<and> hit s = 2 \<and> sum_list (num s) = 1"
    using heatMap_counts[OF s] by (simp add: inBounds_def nrow_def ncol_def)
  with s show ?thesis by blast
qed

text \<open>
  The theorem of C10 at the same three observations, for the cell \<open>0\<close>.
\<close>

theorem heatMap_rate_range_witness:
  "\<exists>r s. heatMap [0, 200, 3] [0, 0, 5] [1, 0, 0] [0, 0, 0] [] = Inr r
    \<and> heatLoop [0, 200, 3] [0, 0, 5] [1, 0, 0] [0..<length [0::real, 0, 0]] heat_init = Inr s
    \<and> num s ! 0 \<le> real_of_int (denom s ! 0)
    \<and> (rat r ! 0 = - 1 \<or> (0 \<le> rat r ! 0 \<and> rat r ! 0 \<le> 1))"
proof -
  have "\<exists>s. heatLoop [0, 200, 3] [0, 0, 5] [1, 0, 0] [0..<length [0::real, 0, 0]] heat_init = Inr s"
    by (rule heatLoop_total) auto
  then obtain s where s: "heatLoop [0, 200, 3] [0, 0, 5] [1, 0, 0] [0..<length [0::real, 0, 0]] heat_init = Inr s" ..
  define r where "r = \<lparr>rat = map (\<lambda>i. heatRate (num s ! i) (denom s ! i)) [0..<length (num s)],
      denom_out = denom s, printed_missed = missed s, printed_hit = hit s\<rparr>"
  have r: "heatMap [0, 200, 3] [0, 0, 5] [1, 0, 0] [0, 0, 0] [] = Inr r"
    using s by (simp add: heatMap_def r_def)
  from heatMap_rate_range[OF r] s
  have inv: "\<forall>q < nat (nrow * ncol). num s ! q \<le> real_of_int (denom s ! q)"
    and rng: "\<forall>x \<in> set (rat r). x = - 1 \<or> (0 \<le> x \<and> x \<le> 1)"
    by auto
  have pos: "(0::nat) < nat (nrow * ncol)" by (simp add: nrow_def ncol_def)
  with inv have a: "num s ! 0 \<le> real_of_int (denom s ! 0)" by blast
  have "length (rat r) = nat (nrow * ncol)" using heatLoop_lengths(2)[OF s] by (simp add: r_def)
  with pos have "0 < length (rat r)" by linarith
  then have "rat r ! 0 \<in> set (rat r)" by simp
  with rng have "rat r ! 0 = - 1 \<or> (0 \<le> rat r ! 0 \<and> rat r ! 0 \<le> 1)" by blast
  with a r s show ?thesis by blast
qed

section \<open>Properties of getBrakeProb\<close>


lemma Argsort_props:
  assumes "Argsort sc = (sc', ii)"
  shows "length sc' = length sc" "length ii = length sc" "set ii = {0..<length sc}"
    "sorted sc'" "mset sc' = mset sc"
proof -
  let ?zs = "zip sc [0..<length sc]"
  from assms have sc': "sc' = map fst (sort_key fst ?zs)" and ii: "ii = map snd (sort_key fst ?zs)"
    by (simp_all add: Argsort_def Let_def)
  show "length sc' = length sc" by (simp add: sc')
  show "length ii = length sc" by (simp add: ii)
  have zs2: "map snd ?zs = [0..<length sc]" by (rule map_snd_zip) simp
  have zs1: "map fst ?zs = sc" by (rule map_fst_zip) simp
  have "set ii = snd ` set ?zs" by (simp add: ii)
  also have "\<dots> = set (map snd ?zs)" by (simp only: set_map)
  also have "\<dots> = set [0..<length sc]" by (simp only: zs2)
  finally show "set ii = {0..<length sc}" by simp
  show "sorted sc'" unfolding sc' by (rule sorted_sort_key)
  have "mset sc' = image_mset fst (mset ?zs)" by (simp add: sc')
  also have "\<dots> = mset (map fst ?zs)" by (simp only: mset_map)
  also have "\<dots> = mset sc" by (simp only: zs1)
  finally show "mset sc' = mset sc" .
qed

lemma reorder_total:
  assumes "\<forall>i \<in> set js. i < length br"
  shows "reorder br js = Inr (map (\<lambda>i. br ! i) js)"
  using assms by (induction js) simp_all

lemma reorder_length:
  assumes "reorder br js = Inr b"
  shows "length b = length js"
  using assms
proof (induction js arbitrary: b)
  case Nil
  then show ?case by simp
next
  case (Cons i js)
  then show ?case by (auto split: if_splits sum.splits)
qed

lemma getBrakeProb_Inr:
  assumes "getBrakeProb sc br w = Inr r"
  obtains sc' ii where "Argsort sc = (sc', ii)" and "sc_mem r = sc'" and "br_mem r = br"
    and "0 \<le> w" and "2 * w \<le> int (length sc)"
    and "sc_out r = drop (nat w) (take (length sc' - nat w) sc')"
proof -
  obtain sc' ii where a: "Argsort sc = (sc', ii)" by (cases "Argsort sc")
  from assms a have "sc_mem r = sc'" "br_mem r = br" "0 \<le> w" "2 * w \<le> int (length sc)"
    "sc_out r = drop (nat w) (take (length sc' - nat w) sc')"
    by (auto simp: getBrakeProb_def Let_def split: sum.splits if_splits)
  with a that show thesis by blast
qed

text \<open>
  Claim C4, as the code has it. \<^verbatim>\<open>getBrakeProb\<close> never writes to \<^verbatim>\<open>br\<close>, but it
  does change \<^verbatim>\<open>sc\<close>: when it returns, the caller's \<^verbatim>\<open>sc\<close> holds the same values
  sorted into increasing order (the sort is in place), and the returned score slice is
  the window \<open>[w, N-w)\<close> of that array.
\<close>

theorem getBrakeProb_memory:
  assumes "getBrakeProb sc br w = Inr r"
  shows "br_mem r = br \<and> sorted (sc_mem r) \<and> mset (sc_mem r) = mset sc
    \<and> sc_out r = drop (nat w) (take (length sc - nat w) (sc_mem r))"
proof -
  from assms obtain sc' ii where a: "Argsort sc = (sc', ii)" and m: "sc_mem r = sc'" "br_mem r = br"
    and o: "sc_out r = drop (nat w) (take (length sc' - nat w) sc')"
    by (rule getBrakeProb_Inr)
  from Argsort_props[OF a] m o show ?thesis by simp
qed

text \<open>
  The theorem of C4 at \<open>sc = [2, 1, 3]\<close>, \<open>br = [0, 0, 0]\<close>, \<open>w = 1\<close>.
\<close>

theorem getBrakeProb_memory_witness:
  "getBrakeProb [2, 1, 3] [0, 0, 0] 1
      = Inr \<lparr>sc_out = [2], z_out = [Some 0], sc_mem = [1, 2, 3], br_mem = [0, 0, 0]\<rparr>
   \<and> sorted [1, 2, 3 :: real] \<and> mset [1, 2, 3 :: real] = mset [2, 1, 3]
   \<and> [2 :: real] = drop (nat 1) (take (length [2 :: real, 1, 3] - nat 1) [1, 2, 3])"
proof -
  have e: "getBrakeProb [2, 1, 3] [0, 0, 0] 1
      = Inr \<lparr>sc_out = [2], z_out = [Some 0], sc_mem = [1, 2, 3], br_mem = [0, 0, 0]\<rparr>"
    by (simp add: getBrakeProb_def Argsort_def fdiv_def upt_rec)
  from getBrakeProb_memory[OF e] e show ?thesis by simp
qed

text \<open>
  Claim C4 as stated fails: after the call on \<open>sc = [2, 1, 3]\<close> the caller's array holds
  \<open>[1, 2, 3]\<close>.
\<close>

theorem getBrakeProb_mutates_sc:
  "getBrakeProb [2, 1, 3] [0, 0, 0] 1
      = Inr \<lparr>sc_out = [2], z_out = [Some 0], sc_mem = [1, 2, 3], br_mem = [0, 0, 0]\<rparr>
   \<and> sc_mem \<lparr>sc_out = [2], z_out = [Some 0], sc_mem = [1, 2, 3], br_mem = [0, 0, 0]\<rparr>
      \<noteq> [2, 1, 3 :: real]"
  by (simp add: getBrakeProb_def Argsort_def fdiv_def upt_rec)

text \<open>
  Claim C3, as the code has it. \<^verbatim>\<open>getBrakeProb\<close> does not validate \<open>w\<close>. When
  \<open>2w > N\<close> the call ends in the run-time panic of the slice expression
  \<^verbatim>\<open>sc[w : len(sc)-w]\<close>; when \<open>2w = N\<close> it returns two empty slices and no error.
\<close>

theorem getBrakeProb_window:
  assumes "length sc \<le> length br" and "int (length sc) \<le> 2 * w"
  shows "if int (length sc) < 2 * w then getBrakeProb sc br w = Inl SliceBoundsOutOfRange
         else (\<exists>r. getBrakeProb sc br w = Inr r \<and> sc_out r = [] \<and> z_out r = [])"
proof -
  obtain sc' ii where a: "Argsort sc = (sc', ii)" by (cases "Argsort sc")
  note p = Argsort_props[OF a]
  from p(3) assms(1) have "\<forall>i \<in> set ii. i < length br" by auto
  then have b: "reorder br ii = Inr (map (\<lambda>i. br ! i) ii)" by (rule reorder_total)
  from assms(2) have w: "0 \<le> w" by linarith
  from assms(2) p(2) have "length ii - nat w \<le> nat w" by simp
  then have e: "[nat w..<length ii - nat w] = []" by simp
  show ?thesis
  proof (cases "int (length sc) < 2 * w")
    case True
    then show ?thesis using a b w by (simp add: getBrakeProb_def Let_def e)
  next
    case False
    with assms(2) have eq: "int (length sc) = 2 * w" by simp
    then have "length sc - nat w \<le> nat w" by linarith
    then show ?thesis using a b w eq p(1) by (simp add: getBrakeProb_def Let_def e)
  qed
qed

text \<open>
  The theorem of C3 at \<open>N = 3\<close>, \<open>w = 2\<close>.
\<close>

theorem getBrakeProb_window_witness:
  "(if int (length [2 :: real, 1, 3]) < 2 * 2
    then getBrakeProb [2, 1, 3] [0, 1, 0] 2 = Inl SliceBoundsOutOfRange
    else (\<exists>r. getBrakeProb [2, 1, 3] [0, 1, 0] 2 = Inr r \<and> sc_out r = [] \<and> z_out r = []))
   \<and> getBrakeProb [2, 1, 3] [0, 1, 0] 2 = Inl SliceBoundsOutOfRange"
proof -
  have "length [2 :: real, 1, 3] \<le> length [0 :: real, 1, 0]" by simp
  moreover have "int (length [2 :: real, 1, 3]) \<le> 2 * 2" by simp
  ultimately show ?thesis using getBrakeProb_window[of "[2, 1, 3]" "[0, 1, 0]" 2] by simp
qed

text \<open>
  Claim C3 as stated fails: with \<open>N = 2\<close> and \<open>w = 1\<close> the trimmed range is empty and
  the call returns two empty slices, with no error.
\<close>

theorem getBrakeProb_empty_window_no_error:
  "int (length [2 :: real, 1]) \<le> 2 * 1
   \<and> getBrakeProb [2, 1] [0, 1] 1 = Inr \<lparr>sc_out = [], z_out = [], sc_mem = [1, 2], br_mem = [0, 1]\<rparr>"
  by (simp add: getBrakeProb_def Argsort_def fdiv_def upt_rec)

text \<open>
  Claim C1 at \<open>N = 5\<close>, \<open>w = 1\<close> and the constant outcome \<open>1\<close>: the last entry of the
  returned accumulator is \<open>1/2\<close>, not \<open>1\<close>. The position \<open>N-w-1\<close> is only reached by the
  window of the index \<open>i = N-w-1\<close> itself, because the outer loop stops before \<open>N-w\<close>.
\<close>

theorem getBrakeProb_all_ones_edge:
  "getBrakeProb [1, 2, 3, 4, 5] [1, 1, 1, 1, 1] 1
     = Inr \<lparr>sc_out = [2, 3, 4], z_out = [Some 1, Some 1, Some (1 / 2)],
            sc_mem = [1, 2, 3, 4, 5], br_mem = [1, 1, 1, 1, 1]\<rparr>"
  by (simp add: getBrakeProb_def Argsort_def fdiv_def upt_rec)

section \<open>Properties of cormat and standardize\<close>


lemma mapE_Inr:
  assumes "mapE f xs = Inr ys"
  shows "length ys = length xs \<and> (\<forall>k<length xs. f (xs ! k) = Inr (ys ! k))"
  using assms
proof (induction xs arbitrary: ys)
  case Nil
  then show ?case by simp
next
  case (Cons x xs)
  from Cons.prems obtain z zs where z: "f x = Inr z" and zs: "mapE f xs = Inr zs" and ys: "ys = z # zs"
    by (auto split: sum.splits)
  from Cons.IH[OF zs] have ih: "length zs = length xs" "\<forall>k<length xs. f (xs ! k) = Inr (zs ! k)"
    by simp_all
  have "f ((x # xs) ! k) = Inr (ys ! k)" if "k < length (x # xs)" for k
    using that z ih(2) ys by (cases k) simp_all
  with ih(1) ys show ?case by simp
qed

lemma mapE_total:
  assumes "\<forall>x \<in> set xs. f x = Inr (g x)"
  shows "mapE f xs = Inr (map g xs)"
  using assms by (induction xs) simp_all

lemma cormat_Inr:
  assumes "cormat x p = Inr y"
  shows "0 \<le> p" and "length y = length x" and "length x = nat p * nat p"
    and "\<forall>i<nat p. \<forall>j<nat p. y ! (i * nat p + j) =
          fdiv (Some (x ! (i * nat p + j)))
            (fmul (fsqrt (Some (x ! (i * nat p + i)))) (fsqrt (Some (x ! (j * nat p + j)))))"
proof -
  define P where "P = nat p"
  define f1 where "f1 = (\<lambda>i. if i * P + i < length x
                         then Inr (fsqrt (Some (x ! (i * P + i))))
                         else (Inl IndexOutOfRange :: error + float))"
  define f2 where "f2 = (\<lambda>s i. if p = 0 then Inl IntegerDivideByZero
                        else if i div P < length s
                        then Inr (fdiv (Some (x ! i)) (fmul (s ! (i div P)) (s ! (i mod P))))
                        else (Inl IndexOutOfRange :: error + float))"
  have p0: "0 \<le> p"
  proof (rule ccontr)
    assume "\<not> 0 \<le> p"
    then have "cormat x p = Inl MakeLenOutOfRange" by (simp add: cormat_def)
    with assms show False by simp
  qed
  show "0 \<le> p" by (rule p0)
  have unf: "cormat x p = (case mapE f1 [0..<P] of Inl e \<Rightarrow> Inl e
      | Inr s \<Rightarrow> mapE (f2 s) [0..<length x])"
    using p0 unfolding cormat_def P_def f1_def f2_def by simp
  obtain s where s: "mapE f1 [0..<P] = Inr s"
    using assms unfolding unf by (cases "mapE f1 [0..<P]") simp_all
  have y: "mapE (f2 s) [0..<length x] = Inr y"
    using assms unfolding unf s by simp
  from mapE_Inr[OF s] have ls: "length s = P" and s1: "\<forall>k<P. f1 k = Inr (s ! k)" by simp_all
  from mapE_Inr[OF y] have ly: "length y = length x" and y1: "\<forall>k<length x. f2 s k = Inr (y ! k)"
    by simp_all
  show "length y = length x" by (rule ly)
  have diag: "i * P + i < length x \<and> s ! i = fsqrt (Some (x ! (i * P + i)))" if "i < P" for i
  proof -
    from s1 that have "f1 i = Inr (s ! i)" by blast
    then show ?thesis unfolding f1_def by (simp split: if_splits)
  qed
  have ent: "p \<noteq> 0 \<and> k div P < P \<and> y ! k = fdiv (Some (x ! k)) (fmul (s ! (k div P)) (s ! (k mod P)))"
    if "k < length x" for k
  proof -
    from y1 that have "f2 s k = Inr (y ! k)" by blast
    then show ?thesis unfolding f2_def ls by (simp split: if_splits)
  qed
  have le: "length x \<le> P * P"
  proof (rule ccontr)
    assume "\<not> length x \<le> P * P"
    then have "P * P < length x" by simp
    from ent[OF this] show False by (cases "P = 0") simp_all
  qed
  have ge: "P * P \<le> length x"
  proof (cases P)
    case 0
    then show ?thesis by simp
  next
    case (Suc n)
    then have "n < P" by simp
    from diag[OF this] have "n * P + n < length x" by simp
    then show ?thesis using Suc by simp
  qed
  from le ge have len: "length x = P * P" by simp
  then show "length x = nat p * nat p" by (simp add: P_def)
  have "y ! (i * P + j) = fdiv (Some (x ! (i * P + j)))
            (fmul (fsqrt (Some (x ! (i * P + i)))) (fsqrt (Some (x ! (j * P + j)))))"
    if "i < P" "j < P" for i j
  proof -
    have "i * P + j < Suc i * P" using that by simp
    also have "\<dots> \<le> P * P" using that by (metis Suc_leI mult_le_mono1)
    finally have k: "i * P + j < length x" by (simp add: len)
    have d: "(i * P + j) div P = i" "(i * P + j) mod P = j" using that by simp_all
    from ent[OF k] diag[OF that(1)] diag[OF that(2)] that show ?thesis by (simp add: d)
  qed
  then show "\<forall>i<nat p. \<forall>j<nat p. y ! (i * nat p + j) =
          fdiv (Some (x ! (i * nat p + j)))
            (fmul (fsqrt (Some (x ! (i * nat p + i)))) (fsqrt (Some (x ! (j * nat p + j)))))"
    by (simp add: P_def)
qed




lemma sum_two:
  fixes f :: "nat \<Rightarrow> real"
  assumes "i < P" "j < P" "i \<noteq> j" and "\<And>k. k < P \<Longrightarrow> k \<noteq> i \<Longrightarrow> k \<noteq> j \<Longrightarrow> f k = 0"
  shows "(\<Sum>k<P. f k) = f i + f j"
proof -
  have "(\<Sum>k<P. f k) = (\<Sum>k\<in>{i, j}. f k)"
    using assms by (intro sum.mono_neutral_right) auto
  also have "\<dots> = f i + f j" using assms(3) by simp
  finally show ?thesis .
qed

lemma double_sum_two:
  fixes g :: "nat \<Rightarrow> real"
  assumes "i < P" "j < P" "i \<noteq> j" and gi: "g i = a" and gj: "g j = b"
    and g0: "\<And>k. k < P \<Longrightarrow> k \<noteq> i \<Longrightarrow> k \<noteq> j \<Longrightarrow> g k = 0"
  shows "(\<Sum>k<P. \<Sum>l<P. g k * g l * h k l)
    = a * a * h i i + a * b * h i j + b * a * h j i + b * b * h j j"
proof -
  have inner: "(\<Sum>l<P. g k * g l * h k l) = g k * a * h k i + g k * b * h k j" for k
  proof -
    have "(\<Sum>l<P. g k * g l * h k l) = g k * g i * h k i + g k * g j * h k j"
      by (rule sum_two[OF assms(1,2,3)]) (simp add: g0)
    then show ?thesis by (simp only: gi gj)
  qed
  have "(\<Sum>k<P. \<Sum>l<P. g k * g l * h k l) = (\<Sum>k<P. g k * a * h k i + g k * b * h k j)"
    by (simp only: inner)
  also have "\<dots> = (g i * a * h i i + g i * b * h i j) + (g j * a * h j i + g j * b * h j j)"
    by (rule sum_two[OF assms(1,2,3)]) (simp add: g0)
  also have "\<dots> = a * a * h i i + a * b * h i j + b * a * h j i + b * b * h j j"
    by (simp only: gi gj add.assoc)
  finally show ?thesis .
qed

lemma quadForm_two:
  assumes "i < P" "j < P" "i \<noteq> j"
  shows "quadForm ((replicate P 0)[i := a, j := b]) m
    = a * a * m ! (i * P + i) + a * b * m ! (i * P + j) + b * a * m ! (j * P + i) + b * b * m ! (j * P + j)"
proof -
  define u where "u = (replicate P (0::real))[i := a, j := b]"
  have lu: "length u = P" by (simp add: u_def)
  have ui: "u ! i = a" and uj: "u ! j = b" using assms by (simp_all add: u_def)
  have u0: "u ! k = 0" if "k < P" "k \<noteq> i" "k \<noteq> j" for k using that by (simp add: u_def)
  have "quadForm u m = (\<Sum>k<P. \<Sum>l<P. u ! k * u ! l * m ! (k * P + l))"
    by (simp only: quadForm_def lu)
  also have "\<dots> = a * a * m ! (i * P + i) + a * b * m ! (i * P + j) + b * a * m ! (j * P + i) + b * b * m ! (j * P + j)"
    by (rule double_sum_two[OF assms ui uj u0])
  finally show ?thesis by (simp only: u_def)
qed

lemma psd_cauchy_schwarz:
  assumes "psd m P" "i < P" "j < P" "i \<noteq> j" "0 < m ! (j * P + j)"
  shows "(m ! (i * P + j))\<^sup>2 \<le> m ! (i * P + i) * m ! (j * P + j)"
proof -
  define c where "c = m ! (i * P + j)"
  define d where "d = m ! (j * P + j)"
  define e where "e = m ! (i * P + i)"
  from assms(1,2,3) have sym: "m ! (j * P + i) = c" by (simp add: psd_def symmetric_def c_def)
  let ?u = "(replicate P (0::real))[i := d, j := - c]"
  from assms(1) have "0 \<le> quadForm ?u m" by (simp add: psd_def)
  also have "quadForm ?u m = d * d * e + d * (- c) * c + (- c) * d * c + (- c) * (- c) * d"
    using quadForm_two[OF assms(2,3,4), of d "- c" m] by (simp add: sym c_def d_def e_def)
  also have "\<dots> = d * (e * d - c\<^sup>2)" by (simp add: algebra_simps power2_eq_square)
  finally have "0 \<le> d * (e * d - c\<^sup>2)" .
  with assms(5) have "0 \<le> e * d - c\<^sup>2" by (simp add: d_def zero_le_mult_iff)
  then show ?thesis by (simp add: c_def d_def e_def)
qed



lemma fsqrt_mult:
  assumes "0 \<le> a" "0 \<le> b"
  shows "fmul (fsqrt (Some a)) (fsqrt (Some b)) = fsqrt (Some (a * b))"
  using assms by (simp add: fmul_def fsqrt_def real_sqrt_mult not_less)

lemma fsqrt_neg:
  assumes "a < 0 \<or> b < 0"
  shows "fdiv c (fmul (fsqrt (Some a)) (fsqrt (Some b))) = None"
  using assms by (auto simp: fmul_def fsqrt_def fdiv_def split: option.splits)

lemma corr_bound:
  fixes c d e :: real
  assumes "c\<^sup>2 \<le> e * d" "0 < e * d"
  shows "- 1 \<le> c / sqrt (e * d) \<and> c / sqrt (e * d) \<le> 1"
proof -
  have s: "0 < sqrt (e * d)" using assms(2) by simp
  from assms(1) have "sqrt (c\<^sup>2) \<le> sqrt (e * d)" by (simp only: real_sqrt_le_iff)
  then have "\<bar>c\<bar> \<le> sqrt (e * d)" by simp
  then have "- sqrt (e * d) \<le> c" "c \<le> sqrt (e * d)" by linarith+
  with s show ?thesis by (simp add: pos_le_divide_eq pos_divide_le_eq)
qed

text \<open>
  Claim C7, as the code has it. When \<^verbatim>\<open>cormat(x, p)\<close> returns, \<open>x\<close> has \<open>p * p\<close> entries
  and the result \<open>y\<close> has the same shape. The code divides \<open>x[i,j]\<close> by the product of the
  two square roots \<open>sqrt(x[i,i]) * sqrt(x[j,j])\<close>: for non-negative diagonal entries that is
  \<open>x[i,j] / sqrt(x[i,i] * x[j,j])\<close> (not a finite number when the product is zero), and as
  soon as one of the two diagonal entries is negative the entry is NaN. With a
  strictly positive diagonal entry \<open>x[i,i]\<close> the entry \<open>y[i,i]\<close> is exactly \<open>1\<close>, and for a
  symmetric positive semi-definite \<open>x\<close> with positive diagonal every entry off the
  diagonal lies in \<open>[-1, 1]\<close>.
\<close>

theorem cormat_correlation:
  assumes "cormat x p = Inr y" and "i < nat p" and "j < nat p"
  shows "length y = length x \<and> length x = nat p * nat p
    \<and> (0 \<le> x ! (i * nat p + i) \<and> 0 \<le> x ! (j * nat p + j) \<longrightarrow>
         y ! (i * nat p + j) = fdiv (Some (x ! (i * nat p + j)))
                                 (fsqrt (Some (x ! (i * nat p + i) * x ! (j * nat p + j)))))
    \<and> (x ! (i * nat p + i) < 0 \<or> x ! (j * nat p + j) < 0 \<longrightarrow> y ! (i * nat p + j) = None)
    \<and> (0 < x ! (i * nat p + i) \<longrightarrow> y ! (i * nat p + i) = Some 1)
    \<and> (psd x (nat p) \<and> (\<forall>k<nat p. 0 < x ! (k * nat p + k)) \<and> i \<noteq> j \<longrightarrow>
         (\<exists>v. y ! (i * nat p + j) = Some v \<and> - 1 \<le> v \<and> v \<le> 1))"
proof -
  define P where "P = nat p"
  define c where "c = x ! (i * P + j)"
  define e where "e = x ! (i * P + i)"
  define d where "d = x ! (j * P + j)"
  note r = cormat_Inr[OF assms(1)]
  from r(4) assms(2,3) have yij: "y ! (i * P + j) = fdiv (Some c) (fmul (fsqrt (Some e)) (fsqrt (Some d)))"
    by (simp add: P_def c_def e_def d_def)
  from r(4) assms(2) have yii: "y ! (i * P + i) = fdiv (Some e) (fmul (fsqrt (Some e)) (fsqrt (Some e)))"
    by (simp add: P_def e_def)
  have a: "y ! (i * P + j) = fdiv (Some c) (fsqrt (Some (e * d)))" if "0 \<le> e" "0 \<le> d"
    using that by (simp add: yij fsqrt_mult)
  have b: "y ! (i * P + j) = None" if "e < 0 \<or> d < 0"
    using that unfolding yij by (rule fsqrt_neg)
  have dg: "y ! (i * P + i) = Some 1" if "0 < e"
    using that by (simp add: yii fmul_def fsqrt_def fdiv_def)
  have od: "\<exists>v. y ! (i * P + j) = Some v \<and> - 1 \<le> v \<and> v \<le> 1"
    if "psd x P" "\<forall>k<P. 0 < x ! (k * P + k)" "i \<noteq> j"
  proof -
    from that(2) assms(2,3) have pe: "0 < e" and pd: "0 < d" by (simp_all add: e_def d_def P_def)
    from assms(2,3) have "i < P" "j < P" by (simp_all add: P_def)
    from psd_cauchy_schwarz[OF that(1) this that(3)] pd have cs: "c\<^sup>2 \<le> e * d"
      by (simp add: c_def d_def e_def)
    from pe pd have ped: "0 < e * d" by simp
    from pe pd have "sqrt (e * d) \<noteq> 0" by simp
    moreover from ped have "\<not> e * d < 0" by linarith
    moreover from pe pd have "y ! (i * P + j) = fdiv (Some c) (fsqrt (Some (e * d)))"
      by (intro a) simp_all
    ultimately have "y ! (i * P + j) = Some (c / sqrt (e * d))"
      by (simp only: fdiv_def fsqrt_def option.case if_False)
    with corr_bound[OF cs ped] show ?thesis by simp
  qed
  from r(2,3) a b dg od show ?thesis unfolding P_def c_def e_def d_def by blast
qed

lemma psd_example: "psd [4, 2, 2, 9] 2"
proof -
  have "0 \<le> quadForm u [4, 2, 2, 9]" if "length u = 2" for u
  proof -
    from that obtain a b where u: "u = [a, b]"
      by (auto simp: numeral_2_eq_2 length_Suc_conv)
    have "quadForm u [4, 2, 2, 9] = (2 * a + b)\<^sup>2 + 8 * b\<^sup>2"
      by (simp add: u quadForm_def lessThan_Suc numeral_2_eq_2 power2_eq_square algebra_simps)
    then show ?thesis by simp
  qed
  moreover have "symmetric [4, 2, 2, 9] 2"
    by (simp add: symmetric_def numeral_2_eq_2 less_Suc_eq)
  ultimately show ?thesis by (simp add: psd_def)
qed

lemma sqrt_nine: "sqrt 9 = 3"
  using real_sqrt_abs[of 3] by simp

text \<open>
  The theorem of C7 at the matrix \<open>((4, 2), (2, 9))\<close>, whose correlation is \<open>1/3\<close>.
\<close>

theorem cormat_correlation_witness:
  "cormat [4, 2, 2, 9] 2 = Inr [Some 1, Some (1 / 3), Some (1 / 3), Some 1]
   \<and> length [Some 1, Some (1 / 3), Some (1 / 3), Some (1::real)] = length [4, 2, 2, 9 :: real]
   \<and> [Some 1, Some (1 / 3), Some (1 / 3), Some (1::real)] ! (0 * nat 2 + 0) = Some 1
   \<and> psd [4, 2, 2, 9] (nat 2)
   \<and> (\<exists>v. [Some 1, Some (1 / 3), Some (1 / 3), Some (1::real)] ! (0 * nat 2 + 1) = Some v
          \<and> - 1 \<le> v \<and> v \<le> 1)"
proof -
  have e: "cormat [4, 2, 2, 9] 2 = Inr [Some 1, Some (1 / 3), Some (1 / 3), Some 1]"
    by (simp add: cormat_def fsqrt_def fdiv_def fmul_def upt_rec sqrt_nine)
  have i: "(0::nat) < nat 2" and j: "(1::nat) < nat 2" by simp_all
  have p: "psd [4, 2, 2, 9] (nat 2)" using psd_example by simp
  have d: "\<forall>k<nat 2. 0 < [4, 2, 2, 9 :: real] ! (k * nat 2 + k)"
    by (simp add: numeral_2_eq_2 less_Suc_eq)
  have ne: "(0::nat) \<noteq> 1" by simp
  have pos: "0 < [4, 2, 2, 9 :: real] ! (0 * nat 2 + 0)" by simp
  note t = cormat_correlation[OF e i j]
  from t have c1: "length [Some 1, Some (1 / 3), Some (1 / 3), Some (1::real)] = length [4, 2, 2, 9 :: real]"
    by (rule conjunct1)
  have t0: "0 < [4, 2, 2, 9 :: real] ! (0 * nat 2 + 0) \<longrightarrow>
      [Some 1, Some (1 / 3), Some (1 / 3), Some (1::real)] ! (0 * nat 2 + 0) = Some 1"
    using cormat_correlation[OF e i i] by blast
  from t0 pos have c2: "[Some 1, Some (1 / 3), Some (1 / 3), Some (1::real)] ! (0 * nat 2 + 0) = Some 1"
    by blast
  from t p d ne have c3: "\<exists>v. [Some 1, Some (1 / 3), Some (1 / 3), Some (1::real)] ! (0 * nat 2 + 1) = Some v
          \<and> - 1 \<le> v \<and> v \<le> 1"
    by blast
  from e c1 c2 p c3 show ?thesis by blast
qed

text \<open>
  Claim C7 as stated fails for a negative diagonal: for the \<open>1 \<times> 1\<close> matrix \<open>(-1)\<close> the
  code returns NaN, while \<open>x[0,0] / sqrt(x[0,0] * x[0,0])\<close> is \<open>-1\<close>.
\<close>

theorem cormat_negative_diagonal:
  "cormat [- 1] 1 = Inr [None]
   \<and> fdiv (Some ([- 1 :: real] ! (0 * 1 + 0)))
        (fsqrt (Some ([- 1] ! (0 * 1 + 0) * [- 1] ! (0 * 1 + 0)))) = Some (- 1)"
  by (simp add: cormat_def fsqrt_def fdiv_def fmul_def)



lemma quadAcc_total:
  assumes "\<forall>(i, j) \<in> set ps. i * length vec + j < length mat"
  shows "quadAcc vec mat v ps = Inr (v + (\<Sum>(i, j)\<leftarrow>ps.
           (if j \<noteq> i then 2 * (vec ! i * vec ! j * mat ! (i * length vec + j))
            else vec ! i * vec ! j * mat ! (i * length vec + j))))"
  using assms
proof (induction ps arbitrary: v)
  case Nil
  then show ?case by simp
next
  case (Cons a ps)
  obtain i j where a: "a = (i, j)" by (cases a)
  from Cons.prems a have "i * length vec + j < length mat" by simp
  moreover from Cons.prems have "\<forall>(i, j) \<in> set ps. i * length vec + j < length mat" by simp
  ultimately show ?case using Cons.IH by (simp add: a Let_def)
qed

lemma lowerPairs_Suc:
  "lowerPairs (Suc P) = lowerPairs P @ map (\<lambda>j. (P, j)) [0..<Suc P]"
  by (simp add: lowerPairs_def)

lemma lowerPairs_set:
  assumes "(i, j) \<in> set (lowerPairs P)"
  shows "i < P \<and> j \<le> i"
  using assms
proof (induction P)
  case 0
  then show ?case by (simp add: lowerPairs_def)
next
  case (Suc P)
  from Suc.prems have "(i, j) \<in> set (lowerPairs P) \<or> (i = P \<and> j \<le> P)"
    unfolding lowerPairs_Suc by auto
  with Suc.IH show ?case by auto
qed

lemma sum_list_upt: "sum_list (map f [0..<n]) = (\<Sum>i<n. f i)"
  by (simp add: interv_sum_list_conv_sum_set_nat atLeast0LessThan)

lemma lowerPairs_sum:
  fixes g :: "nat \<Rightarrow> nat \<Rightarrow> real"
  shows "(\<Sum>(i, j)\<leftarrow>lowerPairs P. g i j) = (\<Sum>i<P. (\<Sum>j<i. g i j) + g i i)"
proof (induction P)
  case 0
  then show ?case by (simp add: lowerPairs_def)
next
  case (Suc P)
  have "(\<Sum>(i, j)\<leftarrow>map (\<lambda>j. (P, j)) [0..<Suc P]. g i j) = sum_list (map (g P) [0..<Suc P])"
    by (simp add: comp_def)
  also have "\<dots> = (\<Sum>j<Suc P. g P j)" by (rule sum_list_upt)
  finally have "(\<Sum>(i, j)\<leftarrow>map (\<lambda>j. (P, j)) [0..<Suc P]. g i j) = (\<Sum>j<P. g P j) + g P P"
    by simp
  with Suc.IH show ?case unfolding lowerPairs_Suc by simp
qed

lemma sym_double_sum:
  fixes f :: "nat \<Rightarrow> nat \<Rightarrow> real"
  assumes "\<forall>i<n. \<forall>j<n. f i j = f j i"
  shows "(\<Sum>i<n. \<Sum>j<n. f i j) = (\<Sum>i<n. (\<Sum>j<i. 2 * f i j) + f i i)"
  using assms
proof (induction n)
  case 0
  then show ?case by simp
next
  case (Suc n)
  from Suc.prems have ih: "(\<Sum>i<n. \<Sum>j<n. f i j) = (\<Sum>i<n. (\<Sum>j<i. 2 * f i j) + f i i)"
    by (intro Suc.IH) simp
  have col: "(\<Sum>i<n. f i n) = (\<Sum>j<n. f n j)"
    using Suc.prems by (intro sum.cong) simp_all
  have "(\<Sum>i<Suc n. \<Sum>j<Suc n. f i j)
      = (\<Sum>i<n. (\<Sum>j<n. f i j) + f i n) + ((\<Sum>j<n. f n j) + f n n)"
    by simp
  also have "\<dots> = (\<Sum>i<n. \<Sum>j<n. f i j) + (\<Sum>i<n. f i n) + ((\<Sum>j<n. f n j) + f n n)"
    by (simp add: sum.distrib)
  also have "\<dots> = (\<Sum>i<n. (\<Sum>j<i. 2 * f i j) + f i i) + ((\<Sum>j<n. 2 * f n j) + f n n)"
    by (simp add: ih col sum_distrib_left)
  finally show ?case by simp
qed

lemma triForm_quadForm:
  assumes "symmetric m (length u)"
  shows "triForm u m = quadForm u m"
proof -
  let ?f = "\<lambda>i j. u ! i * u ! j * m ! (i * length u + j)"
  from assms have "\<forall>i<length u. \<forall>j<length u. ?f i j = ?f j i"
    by (simp add: symmetric_def mult.commute)
  from sym_double_sum[of "length u" ?f, OF this] show ?thesis
    by (simp add: triForm_def quadForm_def)
qed

lemma quadAcc_triForm:
  assumes "length vec * length vec \<le> length mat"
  shows "quadAcc vec mat 0 (lowerPairs (length vec)) = Inr (triForm vec mat)"
proof -
  let ?P = "length vec"
  have "i * ?P + j < length mat" if "(i, j) \<in> set (lowerPairs ?P)" for i j
  proof -
    from lowerPairs_set[OF that] have ij: "i < ?P" "j \<le> i" by simp_all
    then have "i * ?P + j < Suc i * ?P" by simp
    also have "\<dots> \<le> ?P * ?P" using ij(1) by (metis Suc_leI mult_le_mono1)
    finally show ?thesis using assms by simp
  qed
  then have "\<forall>(i, j) \<in> set (lowerPairs ?P). i * ?P + j < length mat" by blast
  from quadAcc_total[OF this, of 0]
  have "quadAcc vec mat 0 (lowerPairs ?P) = Inr (\<Sum>(i, j)\<leftarrow>lowerPairs ?P.
           (if j \<noteq> i then 2 * (vec ! i * vec ! j * mat ! (i * ?P + j))
            else vec ! i * vec ! j * mat ! (i * ?P + j)))"
    by simp
  also have "(\<Sum>(i, j)\<leftarrow>lowerPairs ?P.
           (if j \<noteq> i then 2 * (vec ! i * vec ! j * mat ! (i * ?P + j))
            else vec ! i * vec ! j * mat ! (i * ?P + j))) = triForm vec mat"
    unfolding triForm_def
    by (subst lowerPairs_sum) (intro sum.cong, simp_all)
  finally show ?thesis .
qed

lemma quadForm_scale:
  "quadForm (map (\<lambda>x. x * c) u) m = c\<^sup>2 * quadForm u m"
proof -
  have "quadForm (map (\<lambda>x. x * c) u) m
      = (\<Sum>i<length u. \<Sum>j<length u. c\<^sup>2 * (u ! i * u ! j * m ! (i * length u + j)))"
    unfolding quadForm_def by (simp add: power2_eq_square algebra_simps)
  also have "\<dots> = c\<^sup>2 * quadForm u m"
    unfolding quadForm_def by (simp add: sum_distrib_left)
  finally show ?thesis .
qed



lemma standardize_value:
  assumes "length vec * length vec \<le> length mat" and "0 < triForm vec mat"
  shows "standardize vec mat = Inr (map Some (map (\<lambda>x. x * (1 / sqrt (triForm vec mat))) vec))"
proof -
  from assms(2) have "\<not> triForm vec mat < 0" "sqrt (triForm vec mat) \<noteq> 0" by simp_all
  then have "fdiv (Some 1) (fsqrt (Some (triForm vec mat))) = Some (1 / sqrt (triForm vec mat))"
    by (simp add: fdiv_def fsqrt_def)
  then show ?thesis
    by (simp add: standardize_def quadAcc_triForm[OF assms(1)] Scale_def fmul_def comp_def)
qed

text \<open>
  Claim C8, as the code has it. For a vector \<open>vec\<close> of length \<open>P\<close> and a symmetric
  \<open>P \<times> P\<close> matrix \<open>mat\<close> whose quadratic form at \<open>vec\<close> is strictly positive,
  \<^verbatim>\<open>standardize\<close> scales \<open>vec\<close> by \<open>1 / sqrt\<close> of the quadratic form, the quadratic form of
  the scaled vector is \<open>1\<close>, and a second application leaves the scaled vector unchanged.
\<close>

theorem standardize_idempotent:
  assumes "length vec * length vec \<le> length mat" and "symmetric mat (length vec)"
    and "0 < quadForm vec mat"
  shows "\<exists>vec'. vec' = map (\<lambda>x. x * (1 / sqrt (quadForm vec mat))) vec
    \<and> standardize vec mat = Inr (map Some vec')
    \<and> quadForm vec' mat = 1
    \<and> standardize vec' mat = Inr (map Some vec')"
proof -
  define q where "q = quadForm vec mat"
  define vec' where "vec' = map (\<lambda>x. x * (1 / sqrt q)) vec"
  have lv: "length vec' = length vec" by (simp add: vec'_def)
  from assms(2) have tq: "triForm vec mat = q" unfolding q_def by (rule triForm_quadForm)
  from assms(3) have qpos: "0 < q" by (simp add: q_def)
  have first: "standardize vec mat = Inr (map Some vec')"
    using standardize_value[OF assms(1)] qpos by (simp add: tq vec'_def)
  have "quadForm vec' mat = (1 / sqrt q)\<^sup>2 * q"
    unfolding vec'_def q_def by (rule quadForm_scale)
  also have "\<dots> = 1" using qpos by (simp add: power_divide)
  finally have one: "quadForm vec' mat = 1" .
  from assms(2) have "symmetric mat (length vec')" by (simp add: lv)
  then have t1: "triForm vec' mat = 1" using one by (simp add: triForm_quadForm)
  from assms(1) have "length vec' * length vec' \<le> length mat" by (simp add: lv)
  from standardize_value[OF this] t1 have second: "standardize vec' mat = Inr (map Some vec')"
    by (simp add: comp_def)
  from first one second show ?thesis unfolding vec'_def q_def by blast
qed

text \<open>
  The theorem of C8 at \<open>vec = (3, 0)\<close> and the matrix \<open>((4, 1), (1, 2))\<close>.
\<close>

theorem standardize_idempotent_witness:
  "length [3, 0 :: real] * length [3, 0 :: real] \<le> length [4, 1, 1, 2 :: real]
   \<and> symmetric [4, 1, 1, 2] (length [3, 0 :: real])
   \<and> 0 < quadForm [3, 0] [4, 1, 1, 2]
   \<and> (\<exists>vec'. vec' = map (\<lambda>x. x * (1 / sqrt (quadForm [3, 0] [4, 1, 1, 2]))) [3, 0]
        \<and> standardize [3, 0] [4, 1, 1, 2] = Inr (map Some vec')
        \<and> quadForm vec' [4, 1, 1, 2] = 1
        \<and> standardize vec' [4, 1, 1, 2] = Inr (map Some vec'))"
proof -
  have a: "length [3, 0 :: real] * length [3, 0 :: real] \<le> length [4, 1, 1, 2 :: real]" by simp
  have b: "symmetric [4, 1, 1, 2] (length [3, 0 :: real])"
    by (simp add: symmetric_def less_Suc_eq)
  have c: "0 < quadForm [3, 0] [4, 1, 1, 2]"
    by (simp add: quadForm_def lessThan_Suc)
  from standardize_idempotent[OF a b c] a b c show ?thesis by blast
qed

text \<open>
  Claim C8 as stated fails for a matrix that is not symmetric: the loops read only the
  entries on and below the diagonal. For \<open>vec = (1, 1)\<close> and \<open>mat = ((1, 3), (0, 0))\<close> the
  quadratic form is \<open>4\<close>, the code computes \<open>1\<close> and leaves \<open>vec\<close> as it is.
\<close>

theorem standardize_asymmetric:
  "0 < quadForm [1, 1] [1, 3, 0, 0]
   \<and> standardize [1, 1] [1, 3, 0, 0] = Inr [Some 1, Some 1]
   \<and> quadForm [1, 1] [1, 3, 0, 0] \<noteq> 1"
  by (simp add: standardize_def lowerPairs_def Scale_def fsqrt_def fdiv_def fmul_def upt_rec
      quadForm_def lessThan_Suc)

section \<open>Properties of standardizeCellMeans\<close>




lemma fval_Some: "x \<noteq> None \<Longrightarrow> x = Some (fval x)"
  by (cases x) (simp_all add: fval_def)

lemma fval_simp [simp]: "fval (Some a) = a"
  by (simp add: fval_def)

subsection \<open>Weighted sums\<close>

lemma wsum_Nil [simp]: "wsum f [] cmc = 0" "wsum f cmn [] = 0"
  by (simp_all add: wsum_def)

lemma wsum_Cons [simp]:
  "wsum f (u # us) (c # cs) = (if c > 0 then real_of_int c * f u else 0) + wsum f us cs"
  by (simp add: wsum_def)

lemma wsum_map: "wsum f (map g cmn) cmc = wsum (\<lambda>u. f (g u)) cmn cmc"
proof (induction cmn arbitrary: cmc)
  case Nil
  then show ?case by simp
next
  case (Cons u us)
  then show ?case by (cases cmc) simp_all
qed

lemma wsum_cong:
  assumes "\<forall>(u, c) \<in> set (zip cmn cmc). c > 0 \<longrightarrow> f u = g u"
  shows "wsum f cmn cmc = wsum g cmn cmc"
  using assms
proof (induction cmn arbitrary: cmc)
  case Nil
  then show ?case by simp
next
  case (Cons u us)
  then show ?case by (cases cmc) simp_all
qed

lemma wsum_diff_const: "wsum (\<lambda>u. f u - m) cmn cmc = wsum f cmn cmc - m * wsum (\<lambda>u. 1) cmn cmc"
proof (induction cmn arbitrary: cmc)
  case Nil
  then show ?case by simp
next
  case (Cons u us)
  then show ?case by (cases cmc) (simp_all add: algebra_simps)
qed

lemma wsum_div_const: "wsum (\<lambda>u. f u / s) cmn cmc = wsum f cmn cmc / s"
proof (induction cmn arbitrary: cmc)
  case Nil
  then show ?case by simp
next
  case (Cons u us)
  then show ?case by (cases cmc) (simp_all add: add_divide_distrib)
qed

lemma wsum_nonneg: "0 \<le> wsum (\<lambda>u. 1) cmn cmc"
proof (induction cmn arbitrary: cmc)
  case Nil
  then show ?case by simp
next
  case (Cons u us)
  then show ?case by (cases cmc) simp_all
qed

lemma wtotal_length:
  assumes "length cmn' = length cmn"
  shows "wtotal cmn' cmc = wtotal cmn cmc"
  using assms unfolding wtotal_def
proof (induction cmn arbitrary: cmn' cmc)
  case Nil
  then show ?case by simp
next
  case (Cons u us)
  then obtain u' us' where c: "cmn' = u' # us'" "length us' = length us"
    by (cases cmn') simp_all
  with Cons.IH[of us'] show ?case by (cases cmc) simp_all
qed

lemma populated_finite_Cons:
  "populated_finite (u # us) (c # cs)
     \<longleftrightarrow> ((c > 0 \<longrightarrow> (\<forall>x \<in> set u. x \<noteq> None)) \<and> populated_finite us cs)"
  by (simp add: populated_finite_def)


subsection \<open>The running count\<close>

lemma wrap64_id:
  assumes "- (2 ^ 63) \<le> x" and "x < 2 ^ 63"
  shows "wrap64 x = x"
proof -
  from assms have "0 \<le> x + 2 ^ 63" "x + 2 ^ 63 < 2 ^ 64" by simp_all
  then have "(x + 2 ^ 63) mod 2 ^ 64 = x + 2 ^ 63" by (rule mod_pos_pos_trivial)
  then show ?thesis by (simp add: wrap64_def)
qed

lemma wrap64_add_left: "wrap64 (wrap64 a + b) = wrap64 (a + b)"
proof -
  have "(wrap64 a + b + 2 ^ 63) mod 2 ^ 64 = ((a + 2 ^ 63) mod 2 ^ 64 + b) mod 2 ^ 64"
    by (simp add: wrap64_def algebra_simps)
  also have "\<dots> = (a + 2 ^ 63 + b) mod 2 ^ 64" by (rule mod_add_left_eq)
  finally show ?thesis by (simp add: wrap64_def algebra_simps)
qed

lemma wrap64_idem: "wrap64 (wrap64 x) = wrap64 x"
  using wrap64_add_left[of x 0] by simp

lemma wrap64_zero: "wrap64 0 = 0"
  by (simp add: wrap64_def)

lemma ctotal_Nil [simp]: "ctotal [] cmc = 0" "ctotal cmn [] = 0"
  by (simp_all add: ctotal_def)

lemma ctotal_Cons [simp]:
  "ctotal (u # us) (c # cs) = (if c > 0 then c else 0) + ctotal us cs"
  by (simp add: ctotal_def)

lemma wtotal_ctotal: "wtotal cmn cmc = real_of_int (ctotal cmn cmc)"
  unfolding wtotal_def
proof (induction cmn arbitrary: cmc)
  case Nil
  then show ?case by simp
next
  case (Cons u us)
  then show ?case by (cases cmc) simp_all
qed

lemma count_no_wrap:
  assumes "wtotal cmn cmc < 2 ^ 63"
  shows "real_of_int (wrap64 (ctotal cmn cmc)) = wtotal cmn cmc"
proof -
  have "0 \<le> wtotal cmn cmc" unfolding wtotal_def by (rule wsum_nonneg)
  then have lo: "0 \<le> ctotal cmn cmc" by (simp add: wtotal_ctotal)
  from assms have "real_of_int (ctotal cmn cmc) < real_of_int (2 ^ 63)" by (simp add: wtotal_ctotal)
  then have hi: "ctotal cmn cmc < 2 ^ 63" by (simp only: of_int_less_iff)
  from lo have "- (2 ^ 63) \<le> ctotal cmn cmc" by simp
  from wrap64_id[OF this hi] show ?thesis by (simp add: wtotal_ctotal)
qed

subsection \<open>The centering step\<close>

lemma AddScaled_value:
  assumes "AddScaled v (Some a) u = Inr v1"
    and "\<forall>k<length v. v ! k \<noteq> None" and "\<forall>x \<in> set u. x \<noteq> None"
  shows "length u = length v" and "length v1 = length v"
    and "\<forall>k<length v. v1 ! k = Some (fval (v ! k) + a * fval (u ! k))"
proof -
  from assms(1) have l: "length v = length u"
    and v1: "v1 = map2 (\<lambda>d x. fadd d (fmul (Some a) x)) v u"
    by (simp_all add: AddScaled_def split: if_splits)
  show "length u = length v" using l by simp
  show "length v1 = length v" using l by (simp add: v1)
  have "v1 ! k = Some (fval (v ! k) + a * fval (u ! k))" if "k < length v" for k
  proof -
    from that assms(2) obtain x where x: "v ! k = Some x" by auto
    from that l have "u ! k \<in> set u" by simp
    with assms(3) obtain y where y: "u ! k = Some y" by auto
    from that l show ?thesis by (simp add: v1 x y fadd_def fmul_def)
  qed
  then show "\<forall>k<length v. v1 ! k = Some (fval (v ! k) + a * fval (u ! k))" by blast
qed

lemma centerSum_value:
  assumes "centerSum v w cmn cmc = Inr (v', w')"
    and "length v = K" and "\<forall>k<K. v ! k \<noteq> None" and "populated_finite cmn cmc"
    and "wrap64 w = w"
  shows "length v' = K
    \<and> (\<forall>k<K. v' ! k = Some (fval (v ! k) + wsum (\<lambda>u. fval (u ! k)) cmn cmc))
    \<and> w' = wrap64 (w + ctotal cmn cmc)
    \<and> length cmn \<le> length cmc"
  using assms
proof (induction v w cmn cmc rule: centerSum.induct)
  case (1 v w cmc)
  then show ?case by (auto dest: fval_Some)
next
  case (2 v w u us)
  then show ?case by simp
next
  case (3 v w u us c cs)
  from "3.prems"(4) have pf: "populated_finite us cs" and hd: "c > 0 \<longrightarrow> (\<forall>x \<in> set u. x \<noteq> None)"
    by (simp_all add: populated_finite_Cons)
  show ?case
  proof (cases "c > 0")
    case True
    with "3.prems"(1) have "\<exists>v1. AddScaled v (Some (real_of_int c)) u = Inr v1
        \<and> centerSum v1 (wrap64 (w + c)) us cs = Inr (v', w')"
      by (simp split: sum.splits)
    then obtain v1 where a: "AddScaled v (Some (real_of_int c)) u = Inr v1"
      and rest: "centerSum v1 (wrap64 (w + c)) us cs = Inr (v', w')"
      by blast
    from "3.prems"(2,3) have nn: "\<forall>k<length v. v ! k \<noteq> None" by simp
    from True hd have fu: "\<forall>x \<in> set u. x \<noteq> None" by simp
    note av = AddScaled_value[OF a nn fu]
    from av(2) "3.prems"(2) have l1: "length v1 = K" by simp
    from av(3) "3.prems"(2) have v1: "\<forall>k<K. v1 ! k = Some (fval (v ! k) + real_of_int c * fval (u ! k))"
      by simp
    then have nn1: "\<forall>k<K. v1 ! k \<noteq> None" by simp
    have wr: "wrap64 (wrap64 (w + c)) = wrap64 (w + c)" by (rule wrap64_idem)
    from "3.IH"(1)[OF True a rest l1 nn1 pf wr]
    have ih: "length v' = K"
      "\<forall>k<K. v' ! k = Some (fval (v1 ! k) + wsum (\<lambda>u. fval (u ! k)) us cs)"
      "w' = wrap64 (wrap64 (w + c) + ctotal us cs)" "length us \<le> length cs"
      by simp_all
    from ih(3) have w': "w' = wrap64 (w + (c + ctotal us cs))"
      by (simp add: wrap64_add_left add.assoc)
    have "v' ! k = Some (fval (v ! k) + wsum (\<lambda>u. fval (u ! k)) (u # us) (c # cs))" if "k < K" for k
      using ih(2) v1 that True by (simp add: algebra_simps)
    with ih(1,4) w' True show ?thesis by simp
  next
    case False
    with "3.prems"(1) have rest: "centerSum v w us cs = Inr (v', w')" by simp
    from "3.IH"(2)[OF False rest "3.prems"(2,3) pf "3.prems"(5)] False show ?thesis by simp
  qed
qed

lemma centerSum_length:
  assumes "centerSum v w cmn cmc = Inr (v', w')"
  shows "length v' = length v"
  using assms
proof (induction v w cmn cmc rule: centerSum.induct)
  case (1 v w cmc)
  then show ?case by simp
next
  case (2 v w u us)
  then show ?case by simp
next
  case (3 v w u us c cs)
  show ?case
  proof (cases "c > 0")
    case True
    with "3.prems" have "\<exists>v1. AddScaled v (Some (real_of_int c)) u = Inr v1
        \<and> centerSum v1 (wrap64 (w + c)) us cs = Inr (v', w')"
      by (simp split: sum.splits)
    then obtain v1 where a: "AddScaled v (Some (real_of_int c)) u = Inr v1"
      and rest: "centerSum v1 (wrap64 (w + c)) us cs = Inr (v', w')"
      by blast
    from a have "length v1 = length v" by (auto simp: AddScaled_def split: if_splits)
    with "3.IH"(1)[OF True a rest] show ?thesis by simp
  next
    case False
    with "3.prems" "3.IH"(2) show ?thesis by simp
  qed
qed

lemma centerMean_Inr:
  assumes "centerMean K cmn cmc = Inr vm"
  obtains v w where "centerSum (replicate K (Some 0)) 0 cmn cmc = Inr (v, w)"
    and "vm = Scale (fdiv (Some 1) (Some (real_of_int w))) v"
  using assms unfolding centerMean_def by (auto split: sum.splits)

lemma centerMean_length:
  assumes "centerMean K cmn cmc = Inr vm"
  shows "length vm = K"
proof -
  from assms obtain v w where s: "centerSum (replicate K (Some 0)) 0 cmn cmc = Inr (v, w)"
    and vm: "vm = Scale (fdiv (Some 1) (Some (real_of_int w))) v"
    by (rule centerMean_Inr)
  from centerSum_length[OF s] show ?thesis by (simp add: vm Scale_def)
qed

lemma centerMean_general:
  assumes "centerMean K cmn cmc = Inr vm" and "populated_finite cmn cmc"
  shows "\<forall>k<K. vm ! k = fmul (Some (wsum (\<lambda>u. fval (u ! k)) cmn cmc))
                          (fdiv (Some 1) (Some (real_of_int (wrap64 (ctotal cmn cmc)))))"
    and "length cmn \<le> length cmc"
proof -
  from assms(1) obtain v w where s: "centerSum (replicate K (Some 0)) 0 cmn cmc = Inr (v, w)"
    and vm: "vm = Scale (fdiv (Some 1) (Some (real_of_int w))) v"
    by (rule centerMean_Inr)
  have "length (replicate K (Some (0::real))) = K" "\<forall>k<K. replicate K (Some (0::real)) ! k \<noteq> None"
    by simp_all
  from centerSum_value[OF s this assms(2) wrap64_zero]
  have lv: "length v = K" and v: "\<forall>k<K. v ! k = Some (wsum (\<lambda>u. fval (u ! k)) cmn cmc)"
    and w: "w = wrap64 (ctotal cmn cmc)" and len: "length cmn \<le> length cmc"
    by simp_all
  show "length cmn \<le> length cmc" by (rule len)
  show "\<forall>k<K. vm ! k = fmul (Some (wsum (\<lambda>u. fval (u ! k)) cmn cmc))
                          (fdiv (Some 1) (Some (real_of_int (wrap64 (ctotal cmn cmc)))))"
    using lv v by (simp add: vm Scale_def w)
qed

lemma centerMean_value:
  assumes "centerMean K cmn cmc = Inr vm" and "populated_finite cmn cmc"
    and "0 < wtotal cmn cmc" and "wtotal cmn cmc < 2 ^ 63"
  shows "\<forall>k<K. vm ! k = Some (wmean cmn cmc k)"
proof -
  from assms(3) count_no_wrap[OF assms(4)]
  have "fdiv (Some 1) (Some (real_of_int (wrap64 (ctotal cmn cmc)))) = Some (1 / wtotal cmn cmc)"
    by (simp add: fdiv_def)
  with centerMean_general(1)[OF assms(1,2)] show ?thesis
    by (simp add: fmul_def wmean_def)
qed

lemma Sub_Inr:
  assumes "Sub u v = Inr u'"
  shows "length u = length v" and "u' = map2 fsub u v"
  using assms by (simp_all add: Sub_def split: if_splits)

lemma center_Inr:
  assumes "center K cmn cmc = Inr cmn1"
  obtains vm where "centerMean K cmn cmc = Inr vm" and "length vm = K"
    and "length cmn1 = length cmn"
    and "\<forall>q<length cmn. length (cmn ! q) = K \<and> cmn1 ! q = map2 fsub (cmn ! q) vm"
proof -
  from assms obtain vm where m: "centerMean K cmn cmc = Inr vm"
    and e: "mapE (\<lambda>u. Sub u vm) cmn = Inr cmn1"
    unfolding center_def by (auto split: sum.splits)
  have lv: "length vm = K" by (rule centerMean_length[OF m])
  from mapE_Inr[OF e] have l: "length cmn1 = length cmn"
    and r: "\<forall>q<length cmn. Sub (cmn ! q) vm = Inr (cmn1 ! q)" by simp_all
  have "length (cmn ! q) = K \<and> cmn1 ! q = map2 fsub (cmn ! q) vm" if "q < length cmn" for q
  proof -
    from r that have "Sub (cmn ! q) vm = Inr (cmn1 ! q)" by blast
    from Sub_Inr[OF this] lv show ?thesis by simp
  qed
  with m lv l that show thesis by blast
qed

text \<open>
  Claim C2, as the code has it. In the centering step of \<^verbatim>\<open>standardizeCellMeans\<close> the
  mean vector is subtracted from the vector of every cell \<open>q\<close>, whatever its count
  \<open>cmc[q]\<close>; the counts decide only which cells enter the mean. For finite populated cells
  the mean vector is the count-weighted sum of the populated cells times \<open>1 / w\<close>, \<open>w\<close> being
  the total count as the 64-bit \<^verbatim>\<open>int\<close> holds it; for a positive total count below \<open>2\<^sup>6\<^sup>3\<close>
  it is the count-weighted mean of the populated cells.
\<close>

theorem center_all_cells:
  assumes "center K cmn cmc = Inr cmn1" and "q < length cmn"
  shows "\<exists>vm. centerMean K cmn cmc = Inr vm \<and> length vm = K \<and> length (cmn ! q) = K
    \<and> cmn1 ! q = map2 fsub (cmn ! q) vm
    \<and> (populated_finite cmn cmc \<longrightarrow>
         (\<forall>k<K. vm ! k = fmul (Some (wsum (\<lambda>u. fval (u ! k)) cmn cmc))
                           (fdiv (Some 1) (Some (real_of_int (wrap64 (ctotal cmn cmc)))))))
    \<and> (populated_finite cmn cmc \<and> 0 < wtotal cmn cmc \<and> wtotal cmn cmc < 2 ^ 63 \<longrightarrow>
         (\<forall>k<K. vm ! k = Some (wmean cmn cmc k)))"
proof -
  from assms(1) obtain vm where m: "centerMean K cmn cmc = Inr vm" and lv: "length vm = K"
    and r: "\<forall>q<length cmn. length (cmn ! q) = K \<and> cmn1 ! q = map2 fsub (cmn ! q) vm"
    by (rule center_Inr)
  from centerMean_value[OF m]
  have "populated_finite cmn cmc \<and> 0 < wtotal cmn cmc \<and> wtotal cmn cmc < 2 ^ 63 \<longrightarrow>
      (\<forall>k<K. vm ! k = Some (wmean cmn cmc k))"
    by blast
  moreover from centerMean_general(1)[OF m]
  have "populated_finite cmn cmc \<longrightarrow>
         (\<forall>k<K. vm ! k = fmul (Some (wsum (\<lambda>u. fval (u ! k)) cmn cmc))
                           (fdiv (Some 1) (Some (real_of_int (wrap64 (ctotal cmn cmc))))))"
    by blast
  ultimately show ?thesis using m lv r assms(2) by blast
qed

lemma center_example:
  "center 1 [[Some 1], [Some 5]] [1, 0] = Inr [[Some 0], [Some 4]]"
  by (simp add: center_def centerMean_def AddScaled_def Sub_def Scale_def
      fadd_def fsub_def fmul_def fdiv_def wrap64_def)

text \<open>
  The theorem of C2 at two cells of one dimension, the second with count zero.
\<close>

theorem center_all_cells_witness:
  "center 1 [[Some 1], [Some 5]] [1, 0] = Inr [[Some 0], [Some 4]]
   \<and> [1, 0 :: int] ! 1 = 0
   \<and> (\<exists>vm. centerMean 1 [[Some 1], [Some 5]] [1, 0] = Inr vm \<and> vm ! 0 = Some 1
         \<and> [[Some 0], [Some (4::real)]] ! 1 = map2 fsub ([[Some 1], [Some 5]] ! 1) vm)"
proof -
  have q: "(1::nat) < length [[Some (1::real)], [Some 5]]" by simp
  have pf: "populated_finite [[Some 1], [Some 5]] [1, 0]" by (simp add: populated_finite_def)
  have wt: "0 < wtotal [[Some 1], [Some 5]] [1, 0]" by (simp add: wtotal_def)
  have wm: "wmean [[Some 1], [Some 5]] [1, 0] 0 = 1" by (simp add: wmean_def wtotal_def)
  have wb: "wtotal [[Some 1], [Some 5]] [1, 0] < 2 ^ 63" by (simp add: wtotal_def)
  from center_all_cells[OF center_example q] pf wt wb
  obtain vm where "centerMean 1 [[Some 1], [Some 5]] [1, 0] = Inr vm"
    "[[Some 0], [Some (4::real)]] ! 1 = map2 fsub ([[Some 1], [Some 5]] ! 1) vm"
    "\<forall>k<1. vm ! k = Some (wmean [[Some 1], [Some 5]] [1, 0] k)"
    by blast
  with wm center_example show ?thesis by auto
qed

text \<open>
  Claim C2 as stated fails: with the cells \<open>(1)\<close> and \<open>(5)\<close> and the counts \<open>1\<close> and \<open>0\<close>, the
  mean is \<open>1\<close> and the centering step turns the cell of count zero from \<open>(5)\<close> into \<open>(4)\<close>.
\<close>

theorem center_changes_empty_cell:
  "center 1 [[Some 1], [Some 5]] [1, 0] = Inr [[Some 0], [Some 4]]
   \<and> [1, 0 :: int] ! 1 = 0
   \<and> [[Some 0], [Some (4::real)]] ! 1 \<noteq> [[Some 1], [Some 5]] ! 1"
  by (simp add: center_def centerMean_def AddScaled_def Sub_def Scale_def
      fadd_def fsub_def fmul_def fdiv_def wrap64_def)



subsection \<open>The scaling step\<close>

lemma accSq_value:
  assumes "accSq v c u = Inr v1" and "length v = K" and "length u = K"
    and "\<forall>k<K. v ! k \<noteq> None" and "\<forall>x \<in> set u. x \<noteq> None"
  shows "length v1 = K" and "\<forall>k<K. v1 ! k = Some (fval (v ! k) + real_of_int c * (fval (u ! k))\<^sup>2)"
proof -
  from assms(1,2,3) have v1: "v1 = map2 (\<lambda>x y. fadd x (fmul (fmul (Some (real_of_int c)) y) y)) v u"
    by (simp add: accSq_def split: if_splits)
  show "length v1 = K" using assms(2,3) by (simp add: v1)
  have "v1 ! k = Some (fval (v ! k) + real_of_int c * (fval (u ! k))\<^sup>2)" if "k < K" for k
  proof -
    from that assms(4) obtain x where x: "v ! k = Some x" by auto
    from that assms(3) have "u ! k \<in> set u" by simp
    with assms(5) obtain y where y: "u ! k = Some y" by auto
    from that assms(2,3) show ?thesis
      by (simp add: v1 x y fadd_def fmul_def power2_eq_square algebra_simps)
  qed
  then show "\<forall>k<K. v1 ! k = Some (fval (v ! k) + real_of_int c * (fval (u ! k))\<^sup>2)" by blast
qed

lemma scaleSum_value:
  assumes "scaleSum v w cmn cmc = Inr (v', w')"
    and "length v = K" and "\<forall>k<K. v ! k \<noteq> None" and "populated_finite cmn cmc"
    and "\<forall>u \<in> set cmn. length u = K" and "wrap64 w = w"
  shows "length v' = K
    \<and> (\<forall>k<K. v' ! k = Some (fval (v ! k) + wsum (\<lambda>u. (fval (u ! k))\<^sup>2) cmn cmc))
    \<and> w' = wrap64 (w + ctotal cmn cmc)"
  using assms
proof (induction v w cmn cmc rule: scaleSum.induct)
  case (1 v w cmc)
  then show ?case by (auto dest: fval_Some)
next
  case (2 v w u us)
  then show ?case by simp
next
  case (3 v w u us c cs)
  from "3.prems"(4) have pf: "populated_finite us cs" and hd: "c > 0 \<longrightarrow> (\<forall>x \<in> set u. x \<noteq> None)"
    by (simp_all add: populated_finite_Cons)
  from "3.prems"(5) have lu: "length u = K" and lus: "\<forall>u \<in> set us. length u = K" by simp_all
  show ?case
  proof (cases "c > 0")
    case True
    with "3.prems"(1) have "\<exists>v1. accSq v c u = Inr v1
        \<and> scaleSum v1 (wrap64 (w + c)) us cs = Inr (v', w')"
      by (simp split: sum.splits)
    then obtain v1 where a: "accSq v c u = Inr v1"
      and rest: "scaleSum v1 (wrap64 (w + c)) us cs = Inr (v', w')"
      by blast
    from True hd have fu: "\<forall>x \<in> set u. x \<noteq> None" by simp
    note av = accSq_value[OF a "3.prems"(2) lu "3.prems"(3) fu]
    from av(2) have nn1: "\<forall>k<K. v1 ! k \<noteq> None" by simp
    have wr: "wrap64 (wrap64 (w + c)) = wrap64 (w + c)" by (rule wrap64_idem)
    from "3.IH"(1)[OF True a rest av(1) nn1 pf lus wr]
    have ih: "length v' = K"
      "\<forall>k<K. v' ! k = Some (fval (v1 ! k) + wsum (\<lambda>u. (fval (u ! k))\<^sup>2) us cs)"
      "w' = wrap64 (wrap64 (w + c) + ctotal us cs)"
      by simp_all
    from ih(3) have w': "w' = wrap64 (w + (c + ctotal us cs))"
      by (simp add: wrap64_add_left add.assoc)
    have "v' ! k = Some (fval (v ! k) + wsum (\<lambda>u. (fval (u ! k))\<^sup>2) (u # us) (c # cs))" if "k < K" for k
      using ih(2) av(2) that True by (simp add: algebra_simps)
    with ih(1) w' True show ?thesis by simp
  next
    case False
    with "3.prems"(1) have rest: "scaleSum v w us cs = Inr (v', w')" by simp
    from "3.IH"(2)[OF False rest "3.prems"(2,3) pf lus "3.prems"(6)] False show ?thesis by simp
  qed
qed

lemma scale_value:
  assumes "scale K cmn cmc = Inr out" and "populated_finite cmn cmc"
    and "\<forall>u \<in> set cmn. length u = K" and "0 < wtotal cmn cmc" and "\<forall>k<K. 0 < wvar cmn cmc k"
    and "wtotal cmn cmc < 2 ^ 63"
  obtains sd where "length sd = K" and "\<forall>k<K. sd ! k = Some (sqrt (wvar cmn cmc k))"
    and "out = map (\<lambda>u. map2 fdiv u sd) cmn"
proof -
  from assms(1) obtain v w where s: "scaleSum (replicate K (Some 0)) 0 cmn cmc = Inr (v, w)"
    and e: "mapE (divRow (map fsqrt (Scale (fdiv (Some 1) (Some (real_of_int w))) v))) cmn = Inr out"
    unfolding scale_def by (auto split: sum.splits)
  define sd where "sd = map fsqrt (Scale (fdiv (Some 1) (Some (real_of_int w))) v)"
  have "length (replicate K (Some (0::real))) = K" "\<forall>k<K. replicate K (Some (0::real)) ! k \<noteq> None"
    by simp_all
  from scaleSum_value[OF s this assms(2,3) wrap64_zero]
  have lv: "length v = K" and v: "\<forall>k<K. v ! k = Some (wsum (\<lambda>u. (fval (u ! k))\<^sup>2) cmn cmc)"
    and w0: "w = wrap64 (ctotal cmn cmc)"
    by simp_all
  from count_no_wrap[OF assms(6)] have w: "real_of_int w = wtotal cmn cmc" by (simp add: w0)
  have lsd: "length sd = K" by (simp add: sd_def Scale_def lv)
  from assms(4) w have iw: "fdiv (Some 1) (Some (real_of_int w)) = Some (1 / wtotal cmn cmc)"
    by (simp add: fdiv_def)
  have sdk: "sd ! k = Some (sqrt (wvar cmn cmc k))" if "k < K" for k
  proof -
    from that assms(5) have "\<not> wvar cmn cmc k < 0" by (simp add: not_less less_imp_le)
    then show ?thesis using that lv v iw
      by (simp add: sd_def Scale_def fmul_def fsqrt_def wvar_def)
  qed
  from mapE_Inr[OF e] have lo: "length out = length cmn"
    and r: "\<forall>q<length cmn. divRow sd (cmn ! q) = Inr (out ! q)"
    by (simp_all add: sd_def)
  have "out ! q = map (\<lambda>u. map2 fdiv u sd) cmn ! q" if "q < length out" for q
  proof -
    from that lo r have "divRow sd (cmn ! q) = Inr (out ! q)" by simp
    then have "out ! q = map2 fdiv (cmn ! q) sd" by (simp add: divRow_def split: if_splits)
    with that lo show ?thesis by simp
  qed
  with lo have "out = map (\<lambda>u. map2 fdiv u sd) cmn" by (intro nth_equalityI) simp_all
  with lsd sdk that show thesis by blast
qed

lemma center_map:
  assumes "center K cmn cmc = Inr cmn1"
  obtains vm where "centerMean K cmn cmc = Inr vm" and "length vm = K"
    and "\<forall>u \<in> set cmn. length u = K" and "cmn1 = map (\<lambda>u. map2 fsub u vm) cmn"
proof -
  from assms obtain vm where m: "centerMean K cmn cmc = Inr vm" and lv: "length vm = K"
    and l: "length cmn1 = length cmn"
    and r: "\<forall>q<length cmn. length (cmn ! q) = K \<and> cmn1 ! q = map2 fsub (cmn ! q) vm"
    by (rule center_Inr)
  from r have rows: "\<forall>u \<in> set cmn. length u = K" by (auto simp: in_set_conv_nth)
  have "cmn1 = map (\<lambda>u. map2 fsub u vm) cmn" using l r by (intro nth_equalityI) simp_all
  with m lv rows that show thesis by blast
qed

lemma populated_finite_map:
  assumes "populated_finite cmn cmc"
    and "\<And>u. u \<in> set cmn \<Longrightarrow> \<forall>x \<in> set u. x \<noteq> None \<Longrightarrow> \<forall>x \<in> set (h u). x \<noteq> None"
  shows "populated_finite (map h cmn) cmc"
  using assms
proof (induction cmn arbitrary: cmc)
  case Nil
  then show ?case by (simp add: populated_finite_def)
next
  case (Cons u us)
  show ?case
  proof (cases cmc)
    case Nil
    then show ?thesis by (simp add: populated_finite_def)
  next
    case (Cons c cs)
    from Cons.prems(1) have a: "c > 0 \<longrightarrow> (\<forall>x \<in> set u. x \<noteq> None)" and b: "populated_finite us cs"
      unfolding Cons by (simp_all add: populated_finite_Cons)
    have "populated_finite (map h us) cs"
    proof (rule Cons.IH[OF b])
      fix u' assume "u' \<in> set us" "\<forall>x \<in> set u'. x \<noteq> None"
      then show "\<forall>x \<in> set (h u'). x \<noteq> None" using Cons.prems(2)[of u'] by simp
    qed
    moreover have "c > 0 \<longrightarrow> (\<forall>x \<in> set (h u). x \<noteq> None)"
      using a Cons.prems(2)[of u] by simp
    ultimately show ?thesis unfolding Cons by (simp add: populated_finite_Cons)
  qed
qed

lemma populated_row:
  assumes "populated_finite cmn cmc" and "(u, c) \<in> set (zip cmn cmc)" and "c > 0" and "k < length u"
  shows "u ! k = Some (fval (u ! k))"
proof -
  from assms(1,2,3) have "\<forall>x \<in> set u. x \<noteq> None" by (auto simp: populated_finite_def)
  with assms(4) have "u ! k \<noteq> None" by simp
  then show ?thesis by (rule fval_Some)
qed



lemma standardizeCellMeans_Inr:
  assumes "standardizeCellMeans cmn cmc = Inr out"
  obtains cmn1 where "cmn \<noteq> []" and "center (length (hd cmn)) cmn cmc = Inr cmn1"
    and "scale (length (hd cmn)) cmn1 cmc = Inr out"
  using assms unfolding standardizeCellMeans_def by (auto split: list.splits sum.splits)

lemma zip_row_length:
  assumes "\<forall>u \<in> set cmn. length u = K" and "(u, c) \<in> set (zip cmn cmc)"
  shows "length u = K"
  using assms by (auto dest: set_zip_leftD)

lemma centered_moment:
  assumes "populated_finite cmn cmc" and "\<forall>u \<in> set cmn. length u = K" and "k < K"
    and "length vm = K" and "vm ! k = Some m"
  shows "wsum (\<lambda>u. fval (u ! k)) (map (\<lambda>u. map2 fsub u vm) cmn) cmc
    = wsum (\<lambda>u. fval (u ! k)) cmn cmc - m * wtotal cmn cmc"
proof -
  have "wsum (\<lambda>u. fval (u ! k)) (map (\<lambda>u. map2 fsub u vm) cmn) cmc
      = wsum (\<lambda>u. fval (map2 fsub u vm ! k)) cmn cmc"
    by (rule wsum_map)
  also have "\<dots> = wsum (\<lambda>u. fval (u ! k) - m) cmn cmc"
  proof (rule wsum_cong, clarify)
    fix u c assume uc: "(u, c) \<in> set (zip cmn cmc)" and c: "0 < c"
    from zip_row_length[OF assms(2) uc] have lu: "length u = K" .
    with assms(3) have "k < length u" by simp
    from populated_row[OF assms(1) uc c this] obtain a where a: "u ! k = Some a" by blast
    from lu assms(3,4) show "fval (map2 fsub u vm ! k) = fval (u ! k) - m"
      by (simp add: a assms(5) fsub_def)
  qed
  also have "\<dots> = wsum (\<lambda>u. fval (u ! k)) cmn cmc - m * wtotal cmn cmc"
    unfolding wtotal_def by (rule wsum_diff_const)
  finally show ?thesis .
qed

lemma scaled_entry:
  assumes "populated_finite cmn cmc" and "\<forall>u \<in> set cmn. length u = K" and "k < K"
    and "length sd = K" and "sd ! k = Some s" and "s \<noteq> 0"
    and "(u, c) \<in> set (zip cmn cmc)" and "0 < c"
  shows "fval (map2 fdiv u sd ! k) = fval (u ! k) / s"
proof -
  from zip_row_length[OF assms(2,7)] have lu: "length u = K" .
  with assms(3) have "k < length u" by simp
  from populated_row[OF assms(1,7,8) this] obtain a where a: "u ! k = Some a" by blast
  from lu assms(3,4,6) show ?thesis by (simp add: a assms(5) fdiv_def)
qed

lemma finite_rows_sub:
  assumes "\<forall>x \<in> set u. x \<noteq> None" and "\<forall>x \<in> set vm. x \<noteq> None"
  shows "\<forall>x \<in> set (map2 fsub u vm). x \<noteq> None"
proof
  fix x assume "x \<in> set (map2 fsub u vm)"
  then obtain a b where ab: "(a, b) \<in> set (zip u vm)" and x: "x = fsub a b" by auto
  from ab have "a \<in> set u" "b \<in> set vm" by (auto dest: set_zip_leftD set_zip_rightD)
  with assms have "a \<noteq> None" "b \<noteq> None" by blast+
  then show "x \<noteq> None" by (auto simp: x fsub_def)
qed

lemma finite_rows_div:
  assumes "\<forall>x \<in> set u. x \<noteq> None" and "\<forall>x \<in> set sd. \<exists>s. x = Some s \<and> s \<noteq> 0"
  shows "\<forall>x \<in> set (map2 fdiv u sd). x \<noteq> None"
proof
  fix x assume "x \<in> set (map2 fdiv u sd)"
  then obtain a b where ab: "(a, b) \<in> set (zip u sd)" and x: "x = fdiv a b" by auto
  from ab have "a \<in> set u" "b \<in> set sd" by (auto dest: set_zip_leftD set_zip_rightD)
  with assms obtain a' b' where "a = Some a'" "b = Some b'" "b' \<noteq> 0" by blast
  then show "x \<noteq> None" by (simp add: x fdiv_def)
qed



text \<open>
  Claim C6, as the code has it. Let \<^verbatim>\<open>standardizeCellMeans(cmn, cmc)\<close> return, let the
  populated cells hold finite numbers, let the count-weighted variance of the centered
  means be strictly positive in every dimension, and let the counts of the populated cells
  add up to less than \<open>2\<^sup>6\<^sup>3\<close>, so that the total the code keeps in a Go \<^verbatim>\<open>int\<close> does not
  wrap around. Then, over the populated cells of the result, the
  count-weighted mean of every dimension \<open>k\<close> is \<open>0\<close> and the count-weighted variance of
  every dimension \<open>k\<close> is \<open>1\<close>, in exact arithmetic; the populated cells of the result are
  finite.
\<close>

theorem standardizeCellMeans_moments:
  assumes "standardizeCellMeans cmn cmc = Inr out"
    and "center (length (hd cmn)) cmn cmc = Inr cmn1"
    and "populated_finite cmn cmc"
    and "\<forall>k<length (hd cmn). 0 < wvar cmn1 cmc k"
    and "k < length (hd cmn)"
    and "wtotal cmn cmc < 2 ^ 63"
  shows "populated_finite out cmc \<and> wmean out cmc k = 0 \<and> wvar out cmc k = 1"
proof -
  define K where "K = length (hd cmn)"
  note c1 = assms(2)[folded K_def]
  from assms(5) have kK: "k < K" by (simp add: K_def)
  from assms(4) have var: "\<forall>k<K. 0 < wvar cmn1 cmc k" by (simp add: K_def)
  from assms(1) obtain cmn1' where "center (length (hd cmn)) cmn cmc = Inr cmn1'"
    and "scale (length (hd cmn)) cmn1' cmc = Inr out"
    by (rule standardizeCellMeans_Inr)
  with assms(2) have sc: "scale K cmn1 cmc = Inr out" by (simp add: K_def)
  from c1 obtain vm where m: "centerMean K cmn cmc = Inr vm" and lvm: "length vm = K"
    and rows: "\<forall>u \<in> set cmn. length u = K" and cmn1: "cmn1 = map (\<lambda>u. map2 fsub u vm) cmn"
    by (rule center_map)
  have l1: "length cmn1 = length cmn" by (simp add: cmn1)
  have w1: "wtotal cmn1 cmc = wtotal cmn cmc" by (rule wtotal_length[OF l1])
  define W where "W = wtotal cmn cmc"
  have Wpos: "0 < W"
  proof -
    from var kK have "0 < wvar cmn1 cmc k" by blast
    then have "wtotal cmn1 cmc \<noteq> 0" by (auto simp: wvar_def)
    moreover have "0 \<le> wtotal cmn1 cmc" unfolding wtotal_def by (rule wsum_nonneg)
    ultimately show ?thesis by (simp add: W_def w1)
  qed
  note mv = centerMean_value[OF m assms(3) Wpos[unfolded W_def] assms(6)]
  have vmfin: "\<forall>x \<in> set vm. x \<noteq> None"
    using mv lvm by (auto simp: in_set_conv_nth)
  have pf1: "populated_finite cmn1 cmc"
    unfolding cmn1 by (rule populated_finite_map[OF assms(3)]) (rule finite_rows_sub[OF _ vmfin])
  have rows1: "\<forall>u \<in> set cmn1. length u = K"
    using rows lvm by (auto simp: cmn1)
  from Wpos have W1pos: "0 < wtotal cmn1 cmc" by (simp add: w1 W_def)
  from assms(6) have W1b: "wtotal cmn1 cmc < 2 ^ 63" by (simp add: w1)
  from scale_value[OF sc pf1 rows1 W1pos var W1b]
  obtain sd where lsd: "length sd = K" and sdv: "\<forall>k<K. sd ! k = Some (sqrt (wvar cmn1 cmc k))"
    and out: "out = map (\<lambda>u. map2 fdiv u sd) cmn1"
    by blast
  define s where "s = sqrt (wvar cmn1 cmc k)"
  from var kK have vpos: "0 < wvar cmn1 cmc k" by blast
  then have spos: "0 < s" and s2: "s\<^sup>2 = wvar cmn1 cmc k" by (simp_all add: s_def)
  from sdv kK have sdk: "sd ! k = Some s" by (simp add: s_def)
  from spos have sne: "s \<noteq> 0" by simp
  have sdfin: "\<forall>x \<in> set sd. \<exists>t. x = Some t \<and> t \<noteq> 0"
  proof
    fix x assume "x \<in> set sd"
    then obtain j where j: "j < K" "x = sd ! j" using lsd by (auto simp: in_set_conv_nth)
    with sdv var have "x = Some (sqrt (wvar cmn1 cmc j))" "0 < wvar cmn1 cmc j" by simp_all
    then show "\<exists>t. x = Some t \<and> t \<noteq> 0" by simp
  qed
  have pfo: "populated_finite out cmc"
    unfolding out by (rule populated_finite_map[OF pf1]) (rule finite_rows_div[OF _ sdfin])
  have "length out = length cmn" by (simp add: out cmn1)
  from wtotal_length[OF this] have wo: "wtotal out cmc = W" by (simp add: W_def)
  \<comment> \<open>the mean\<close>
  have "wsum (\<lambda>u. fval (u ! k)) cmn1 cmc
      = wsum (\<lambda>u. fval (u ! k)) cmn cmc - wmean cmn cmc k * wtotal cmn cmc"
    unfolding cmn1 using mv kK by (intro centered_moment[OF assms(3) rows kK lvm]) simp
  also have "\<dots> = 0" using Wpos by (simp add: wmean_def W_def)
  finally have z1: "wsum (\<lambda>u. fval (u ! k)) cmn1 cmc = 0" .
  have "wsum (\<lambda>u. fval (u ! k)) out cmc = wsum (\<lambda>u. fval (map2 fdiv u sd ! k)) cmn1 cmc"
    unfolding out by (rule wsum_map)
  also have "\<dots> = wsum (\<lambda>u. fval (u ! k) / s) cmn1 cmc"
    by (rule wsum_cong, clarify) (rule scaled_entry[OF pf1 rows1 kK lsd sdk sne])
  also have "\<dots> = wsum (\<lambda>u. fval (u ! k)) cmn1 cmc / s" by (rule wsum_div_const)
  finally have "wsum (\<lambda>u. fval (u ! k)) out cmc = 0" by (simp add: z1)
  then have mean: "wmean out cmc k = 0" by (simp add: wmean_def)
  \<comment> \<open>the variance\<close>
  have "wsum (\<lambda>u. (fval (u ! k))\<^sup>2) out cmc = wsum (\<lambda>u. (fval (map2 fdiv u sd ! k))\<^sup>2) cmn1 cmc"
    unfolding out by (rule wsum_map)
  also have "\<dots> = wsum (\<lambda>u. (fval (u ! k))\<^sup>2 / s\<^sup>2) cmn1 cmc"
  proof (rule wsum_cong, clarify)
    fix u c assume "(u, c) \<in> set (zip cmn1 cmc)" "0 < c"
    from scaled_entry[OF pf1 rows1 kK lsd sdk sne this]
    show "(fval (map2 fdiv u sd ! k))\<^sup>2 = (fval (u ! k))\<^sup>2 / s\<^sup>2" by (simp add: power_divide)
  qed
  also have "\<dots> = wsum (\<lambda>u. (fval (u ! k))\<^sup>2) cmn1 cmc / s\<^sup>2" by (rule wsum_div_const)
  finally have "wvar out cmc k = wsum (\<lambda>u. (fval (u ! k))\<^sup>2) cmn1 cmc / s\<^sup>2 / W"
    by (simp add: wvar_def wo)
  also have "\<dots> = wvar cmn1 cmc k / s\<^sup>2" by (simp add: wvar_def w1 W_def)
  also have "\<dots> = 1" using vpos by (simp add: s2)
  finally have "wvar out cmc k = 1" .
  with pfo mean show ?thesis by blast
qed



text \<open>
  The theorem of C6 at the cells \<open>(1)\<close>, \<open>(7)\<close>, \<open>(5)\<close> with the counts \<open>1\<close>, \<open>0\<close>, \<open>1\<close>: the
  mean is \<open>3\<close>, the variance of the centered means is \<open>4\<close>.
\<close>

theorem standardizeCellMeans_moments_witness:
  "standardizeCellMeans [[Some 1], [Some 7], [Some 5]] [1, 0, 1]
      = Inr [[Some (- 1)], [Some 2], [Some 1]]
   \<and> center (length (hd [[Some (1::real)], [Some 7], [Some 5]])) [[Some 1], [Some 7], [Some 5]] [1, 0, 1]
      = Inr [[Some (- 2)], [Some 4], [Some 2]]
   \<and> populated_finite [[Some 1], [Some 7], [Some 5]] [1, 0, 1]
   \<and> wvar [[Some (- 2)], [Some 4], [Some 2]] [1, 0, 1] 0 = 4
   \<and> wtotal [[Some 1], [Some 7], [Some 5]] [1, 0, 1] = 2
   \<and> populated_finite [[Some (- 1)], [Some 2], [Some 1]] [1, 0, 1]
   \<and> wmean [[Some (- 1)], [Some 2], [Some 1]] [1, 0, 1] 0 = 0
   \<and> wvar [[Some (- 1)], [Some 2], [Some 1]] [1, 0, 1] 0 = 1"
proof -
  have c: "center (length (hd [[Some (1::real)], [Some 7], [Some 5]])) [[Some 1], [Some 7], [Some 5]] [1, 0, 1]
      = Inr [[Some (- 2)], [Some 4], [Some 2]]"
    by (simp add: center_def centerMean_def AddScaled_def Sub_def Scale_def
        fadd_def fsub_def fmul_def fdiv_def wrap64_def)
  have s: "scale 1 [[Some (- 2)], [Some 4], [Some 2]] [1, 0, 1] = Inr [[Some (- 1)], [Some 2], [Some 1]]"
    by (simp add: scale_def accSq_def divRow_def Scale_def fadd_def fmul_def fdiv_def fsqrt_def
        wrap64_def)
  have e: "standardizeCellMeans [[Some 1], [Some 7], [Some 5]] [1, 0, 1]
      = Inr [[Some (- 1)], [Some 2], [Some 1]]"
    using c s by (simp add: standardizeCellMeans_def)
  have pf: "populated_finite [[Some 1], [Some 7], [Some 5]] [1, 0, 1]"
    by (simp add: populated_finite_def)
  have v: "wvar [[Some (- 2)], [Some 4], [Some 2]] [1, 0, 1] 0 = 4"
    by (simp add: wvar_def wtotal_def wsum_def fval_def)
  then have vp: "\<forall>k<length (hd [[Some (1::real)], [Some 7], [Some 5]]).
      0 < wvar [[Some (- 2)], [Some 4], [Some 2]] [1, 0, 1] k"
    by simp
  have k: "0 < length (hd [[Some (1::real)], [Some 7], [Some 5]])" by simp
  have wt: "wtotal [[Some 1], [Some 7], [Some 5]] [1, 0, 1] = 2" by (simp add: wtotal_def)
  then have wb: "wtotal [[Some 1], [Some 7], [Some 5]] [1, 0, 1] < 2 ^ 63" by simp
  from standardizeCellMeans_moments[OF e c pf vp k wb] e c pf v wt show ?thesis by blast
qed

text \<open>
  Claim C6 as stated fails when the total count wraps around. With the cells \<open>(1)\<close> and
  \<open>(3)\<close> and the counts \<open>2\<^sup>6\<^sup>2\<close> and \<open>2\<^sup>6\<^sup>2\<close>, the sum of the counts, \<open>2\<^sup>6\<^sup>3\<close>, wraps to \<open>-2\<^sup>6\<^sup>3\<close>
  in \<open>w\<close>: the mean becomes \<open>-2\<close>, the centered cells \<open>(3)\<close> and \<open>(5)\<close>, whose count-weighted
  variance is \<open>17\<close>; the code divides the sum of squares by the negative \<open>w\<close>, takes the
  square root of \<open>-17\<close>, and every cell of the result is NaN.
\<close>

theorem standardizeCellMeans_count_wraps:
  "standardizeCellMeans [[Some 1], [Some 3]] [2 ^ 62, 2 ^ 62] = Inr [[None], [None]]
   \<and> center (length (hd [[Some (1::real)], [Some 3]])) [[Some 1], [Some 3]] [2 ^ 62, 2 ^ 62]
      = Inr [[Some 3], [Some 5]]
   \<and> populated_finite [[Some 1], [Some 3]] [2 ^ 62, 2 ^ 62]
   \<and> wvar [[Some 3], [Some 5]] [2 ^ 62, 2 ^ 62] 0 = 17
   \<and> \<not> populated_finite [[None], [None]] [2 ^ 62, 2 ^ 62]
   \<and> wvar [[None], [None]] [2 ^ 62, 2 ^ 62] 0 \<noteq> 1"
proof -
  have c: "center (length (hd [[Some (1::real)], [Some 3]])) [[Some 1], [Some 3]] [2 ^ 62, 2 ^ 62]
      = Inr [[Some 3], [Some 5]]"
    by (simp add: center_def centerMean_def AddScaled_def Sub_def Scale_def
        fadd_def fsub_def fmul_def fdiv_def wrap64_def)
  have s: "scale 1 [[Some 3], [Some 5]] [2 ^ 62, 2 ^ 62] = Inr [[None], [None]]"
    by (simp add: scale_def accSq_def divRow_def Scale_def fadd_def fmul_def fdiv_def fsqrt_def
        wrap64_def)
  have e: "standardizeCellMeans [[Some 1], [Some 3]] [2 ^ 62, 2 ^ 62] = Inr [[None], [None]]"
    using c s by (simp add: standardizeCellMeans_def)
  have pf: "populated_finite [[Some 1], [Some 3]] [2 ^ 62, 2 ^ 62]"
    by (simp add: populated_finite_def)
  have v: "wvar [[Some 3], [Some 5]] [2 ^ 62, 2 ^ 62] 0 = 17"
    by (simp add: wvar_def wtotal_def wsum_def fval_def)
  have n: "\<not> populated_finite [[None], [None]] [2 ^ 62, 2 ^ 62]"
    by (simp add: populated_finite_def)
  have o: "wvar [[None], [None]] [2 ^ 62, 2 ^ 62] 0 \<noteq> 1"
    by (simp add: wvar_def wtotal_def wsum_def fval_def)
  from e c pf v n o show ?thesis by blast
qed


end
